theory Spec2Isabelle
  imports Main
begin

section \<open>Errors\<close>

text \<open>
  Every exception the modelled code can raise is a value of \<open>error\<close>; a call that may
  raise returns \<open>error + 'a\<close>, with \<open>Inl\<close> for the exception.

  \<^item> \<open>InvalidPhone\<close>: the \<open>ValueError\<close> of \<open>Phone.__init__\<close>;
  \<^item> \<open>InvalidDate\<close>: the \<open>ValueError("Invalid date format. Use DD.MM.YYYY")\<close> of
    \<open>Birthday.__init__\<close>;
  \<^item> \<open>OldPhoneNotFound\<close>: the \<open>ValueError("Old phone number not found.")\<close> of
    \<open>Record.edit_phone\<close>;
  \<^item> \<open>StrptimeError\<close>: the \<open>ValueError\<close> of \<open>datetime.strptime\<close> for a string
    that does not match the format;
  \<^item> \<open>DateOutOfRange\<close>: the \<open>ValueError\<close> of the \<open>date\<close> constructor (and so of
    \<open>date.replace\<close>) for a year, month or day out of range;
  \<^item> \<open>OverflowError\<close>: raised by \<open>date + timedelta\<close> when the result leaves the
    supported range.
\<close>

datatype error =
    InvalidPhone
  | InvalidDate
  | OldPhoneNotFound
  | StrptimeError
  | DateOutOfRange
  | OverflowError

section \<open>Strings\<close>

text \<open>
  A Python \<open>str\<close> is modelled as a \<open>string\<close>, one \<open>char\<close> for each character, over the
  ASCII characters. There \<open>str.isdigit\<close> and the \<open>\d\<close> of a regular expression
  both hold of exactly the ten characters \<open>0\<close> to \<open>9\<close>.
\<close>

definition isdigit_char :: "char \<Rightarrow> bool" where
  "isdigit_char c = (c \<in> set ''0123456789'')"

text \<open>\<open>str.isdigit\<close>: every character is a digit and there is at least one character.\<close>

definition isdigit :: "string \<Rightarrow> bool" where
  "isdigit s = (s \<noteq> [] \<and> list_all isdigit_char s)"

text \<open>\<open>s.replace(c, "")\<close> for a one-character \<open>c\<close>: every occurrence of \<open>c\<close> is deleted.\<close>

definition replace_empty :: "char \<Rightarrow> string \<Rightarrow> string" where
  "replace_empty c s = filter (\<lambda>x. x \<noteq> c) s"

section \<open>Field validators\<close>

text \<open>
  \<open>Phone.__init__\<close>. The result is the \<open>value\<close> attribute of the constructed field.
\<close>

definition Phone :: "string \<Rightarrow> error + string" where
  "Phone v =
     (let cleaned = replace_empty CHR '' '' (replace_empty CHR ''-'' (replace_empty CHR ''+'' v))
      in if \<not> isdigit cleaned \<or> \<not> (length cleaned = 10 \<or> length cleaned = 12)
         then Inl InvalidPhone
         else Inr cleaned)"

section \<open>Record\<close>

text \<open>
  A \<open>Record\<close> holds the values of its fields: \<open>name\<close> is \<open>self.name.value\<close>,
  \<open>phones\<close> the values of the \<open>Phone\<close> objects in list order, \<open>birthday\<close> the
  value of the \<open>Birthday\<close> object, or \<open>None\<close>.

  A method that mutates the record takes the record and returns the outcome of the call
  together with the record as the call leaves it.
\<close>

record Record =
  name :: string
  phones :: "string list"
  email :: string
  birthday :: "string option"

definition add_phone :: "string \<Rightarrow> Record \<Rightarrow> (error + unit) \<times> Record" where
  "add_phone phone r =
     (case Phone phone of
        Inl e \<Rightarrow> (Inl e, r)
      | Inr v \<Rightarrow> (Inr (), r\<lparr>phones := phones r @ [v]\<rparr>))"


definition remove_phone :: "string \<Rightarrow> Record \<Rightarrow> Record" where
  "remove_phone phone r = r\<lparr>phones := filter (\<lambda>p. p \<noteq> phone) (phones r)\<rparr>"

text \<open>
  The loop of \<open>Record.edit_phone\<close> over \<open>self.phones\<close>: at the first phone equal to
  \<open>old_phone\<close> the new phone is validated and, when valid, assigned in place.
\<close>

fun edit_phone_loop :: "string \<Rightarrow> string \<Rightarrow> string list \<Rightarrow> (error + string) \<times> string list" where
  "edit_phone_loop old_phone new_phone [] = (Inl OldPhoneNotFound, [])"
| "edit_phone_loop old_phone new_phone (p # ps) =
     (if p = old_phone then
        (case Phone new_phone of
           Inl e \<Rightarrow> (Inl e, p # ps)
         | Inr v \<Rightarrow> (Inr ''Phone updated.'', v # ps))
      else
        (case edit_phone_loop old_phone new_phone ps of
           (res, ps') \<Rightarrow> (res, p # ps')))"

definition edit_phone :: "string \<Rightarrow> string \<Rightarrow> Record \<Rightarrow> (error + string) \<times> Record" where
  "edit_phone old_phone new_phone r =
     (case edit_phone_loop old_phone new_phone (phones r) of
        (res, ps') \<Rightarrow> (res, r\<lparr>phones := ps'\<rparr>))"

definition find_phone :: "string \<Rightarrow> Record \<Rightarrow> string option" where
  "find_phone phone r = find (\<lambda>p. p = phone) (phones r)"

section \<open>Calendar dates\<close>

text \<open>
  The standard library's \<open>datetime.date\<close>: a year, a month and a day of Python's
  unbounded integers, in the proleptic Gregorian calendar, with the library's own
  tables and day count (\<open>_is_leap\<close>, \<open>_days_in_month\<close>, \<open>_days_before_year\<close>,
  \<open>_days_before_month\<close>, \<open>_ymd2ord\<close>).
\<close>

record date =
  year :: int
  month :: int
  day :: int

definition MINYEAR :: int where "MINYEAR = 1"
definition MAXYEAR :: int where "MAXYEAR = 9999"
definition MAXORDINAL :: int where "MAXORDINAL = 3652059"

definition is_leap :: "int \<Rightarrow> bool" where
  "is_leap y = (y mod 4 = 0 \<and> (y mod 100 \<noteq> 0 \<or> y mod 400 = 0))"

definition DAYS_IN_MONTH :: "int list" where
  "DAYS_IN_MONTH = [-1, 31, 28, 31, 30, 31, 30, 31, 31, 30, 31, 30, 31]"

definition DAYS_BEFORE_MONTH :: "int list" where
  "DAYS_BEFORE_MONTH = [-1, 0, 31, 59, 90, 120, 151, 181, 212, 243, 273, 304, 334]"

definition days_before_year :: "int \<Rightarrow> int" where
  "days_before_year y = (let y1 = y - 1 in y1 * 365 + y1 div 4 - y1 div 100 + y1 div 400)"

definition days_in_month :: "int \<Rightarrow> int \<Rightarrow> int" where
  "days_in_month y m = (if m = 2 \<and> is_leap y then 29 else DAYS_IN_MONTH ! nat m)"

definition days_before_month :: "int \<Rightarrow> int \<Rightarrow> int" where
  "days_before_month y m = DAYS_BEFORE_MONTH ! nat m + (if m > 2 \<and> is_leap y then 1 else 0)"

text \<open>
  The range checks of the \<open>date\<close> constructor (\<open>_check_date_fields\<close>), as a predicate
  and as the constructor itself.
\<close>

definition valid_date :: "date \<Rightarrow> bool" where
  "valid_date d =
     (MINYEAR \<le> year d \<and> year d \<le> MAXYEAR \<and> 1 \<le> month d \<and> month d \<le> 12 \<and>
      1 \<le> day d \<and> day d \<le> days_in_month (year d) (month d))"

definition date_new :: "int \<Rightarrow> int \<Rightarrow> int \<Rightarrow> error + date" where
  "date_new y m d =
     (if \<not> (MINYEAR \<le> y \<and> y \<le> MAXYEAR) then Inl DateOutOfRange
      else if \<not> (1 \<le> m \<and> m \<le> 12) then Inl DateOutOfRange
      else if \<not> (1 \<le> d \<and> d \<le> days_in_month y m) then Inl DateOutOfRange
      else Inr \<lparr>year = y, month = m, day = d\<rparr>)"

text \<open>\<open>d.replace(year=y)\<close> builds a new date from \<open>y\<close> and the month and day of \<open>d\<close>.\<close>

definition replace_year :: "date \<Rightarrow> int \<Rightarrow> error + date" where
  "replace_year d y = date_new y (month d) (day d)"

definition toordinal :: "date \<Rightarrow> int" where
  "toordinal d = days_before_year (year d) + days_before_month (year d) (month d) + day d"

text \<open>\<open>date.weekday()\<close>: Monday is 0, Sunday is 6.\<close>

definition weekday :: "date \<Rightarrow> int" where
  "weekday d = (toordinal d + 6) mod 7"

text \<open>The order of dates compares the triples (year, month, day).\<close>

definition date_less :: "date \<Rightarrow> date \<Rightarrow> bool" where
  "date_less a b =
     (year a < year b \<or>
      (year a = year b \<and> (month a < month b \<or> (month a = month b \<and> day a < day b))))"

text \<open>
  \<open>date + timedelta(days=k)\<close> is the date \<open>k\<close> days later, or \<open>OverflowError\<close> when
  its ordinal leaves \<open>1..MAXORDINAL\<close>. The later date is reached a day at a time; the
  model covers \<open>k \<ge> 0\<close>, and the one call passes \<open>7 - weekday\<close>, which is 1 or 2.
\<close>

definition next_day :: "date \<Rightarrow> date" where
  "next_day d =
     (if day d < days_in_month (year d) (month d) then d\<lparr>day := day d + 1\<rparr>
      else if month d < 12 then d\<lparr>month := month d + 1, day := 1\<rparr>
      else \<lparr>year = year d + 1, month = 1, day = 1\<rparr>)"

fun add_days :: "nat \<Rightarrow> date \<Rightarrow> date" where
  "add_days 0 d = d"
| "add_days (Suc n) d = add_days n (next_day d)"

definition date_add :: "date \<Rightarrow> int \<Rightarrow> error + date" where
  "date_add d k =
     (let ord = toordinal d + k
      in if 0 < ord \<and> ord \<le> MAXORDINAL then Inr (add_days (nat k) d)
         else Inl OverflowError)"

section \<open>Parsing and formatting dates\<close>

text \<open>
  \<open>datetime.strptime(s, "%d.%m.%Y")\<close> matches \<open>s\<close> against the regular expression
  \<^verbatim>\<open>(?P<d>3[0-1]|[1-2]\d|0[1-9]|[1-9]| [1-9])\.(?P<m>1[0-2]|0[1-9]|[1-9])\.(?P<Y>\d\d\d\d)\<close>
  and requires the match to end where \<open>s\<close> ends. The predicates below are the three
  groups, alternative by alternative.
\<close>

definition day_re :: "string \<Rightarrow> bool" where
  "day_re t =
     (case t of
        [a] \<Rightarrow> a \<in> set ''123456789''
      | [a, b] \<Rightarrow>
          (a = CHR ''3'' \<and> b \<in> set ''01'') \<or>
          (a \<in> set ''12'' \<and> isdigit_char b) \<or>
          (a = CHR ''0'' \<and> b \<in> set ''123456789'') \<or>
          (a = CHR '' '' \<and> b \<in> set ''123456789'')
      | _ \<Rightarrow> False)"

definition month_re :: "string \<Rightarrow> bool" where
  "month_re t =
     (case t of
        [a] \<Rightarrow> a \<in> set ''123456789''
      | [a, b] \<Rightarrow>
          (a = CHR ''1'' \<and> b \<in> set ''012'') \<or>
          (a = CHR ''0'' \<and> b \<in> set ''123456789'')
      | _ \<Rightarrow> False)"

definition year_re :: "string \<Rightarrow> bool" where
  "year_re t = (length t = 4 \<and> list_all isdigit_char t)"

text \<open>
  No alternative of the day or the month group matches a \<open>.\<close>, and each group is
  followed by one: the text of the group is the text up to the next \<open>.\<close>. The year
  group takes four characters, which must be all that is left.
\<close>

definition match_dmY :: "string \<Rightarrow> (string \<times> string \<times> string) option" where
  "match_dmY s =
     (let d = takeWhile (\<lambda>c. c \<noteq> CHR ''.'') s;
          r1 = dropWhile (\<lambda>c. c \<noteq> CHR ''.'') s
      in case r1 of
           [] \<Rightarrow> None
         | _ # r1' \<Rightarrow>
             (let m = takeWhile (\<lambda>c. c \<noteq> CHR ''.'') r1';
                  r2 = dropWhile (\<lambda>c. c \<noteq> CHR ''.'') r1'
              in case r2 of
                   [] \<Rightarrow> None
                 | _ # y \<Rightarrow> if day_re d \<and> month_re m \<and> year_re y then Some (d, m, y) else None))"

text \<open>The value of a decimal digit is its place among the ten digits.\<close>

definition digit_value :: "char \<Rightarrow> int" where
  "digit_value c = int (length (takeWhile (\<lambda>x. x \<noteq> c) ''0123456789''))"

text \<open>
  \<open>int(t)\<close> for the text of a group: decimal digits, after a space in the one
  alternative of the day group that has one (\<open>int\<close> skips surrounding whitespace).
\<close>

definition py_int :: "string \<Rightarrow> int" where
  "py_int t = foldl (\<lambda>acc c. 10 * acc + digit_value c) 0 (dropWhile (\<lambda>c. c = CHR '' '') t)"

text \<open>
  The parsed numbers go through the \<open>date\<close> constructor, which raises for a day that
  the month does not have and for the year 0.
\<close>

definition strptime_dmY :: "string \<Rightarrow> error + date" where
  "strptime_dmY s =
     (case match_dmY s of
        None \<Rightarrow> Inl StrptimeError
      | Some (d, m, y) \<Rightarrow> date_new (py_int y) (py_int m) (py_int d))"

text \<open>
  \<open>d.strftime("%d.%m.%Y")\<close>: day and month as two digits, the year as four, each
  padded with zeros on the left. (For a year below 1000 the padding of \<open>%Y\<close> is left
  to the platform's C library; the model pads, as the library's documentation shows it.)
\<close>

definition digit_char :: "nat \<Rightarrow> char" where
  "digit_char n = ''0123456789'' ! n"

fun decimal :: "nat \<Rightarrow> string" where
  "decimal n = (if n < 10 then [digit_char n] else decimal (n div 10) @ [digit_char (n mod 10)])"

declare decimal.simps [simp del]

definition zero_pad :: "nat \<Rightarrow> int \<Rightarrow> string" where
  "zero_pad w n = (let s = decimal (nat n) in replicate (w - length s) CHR ''0'' @ s)"

definition strftime_dmY :: "date \<Rightarrow> string" where
  "strftime_dmY d = zero_pad 2 (day d) @ ''.'' @ zero_pad 2 (month d) @ ''.'' @ zero_pad 4 (year d)"

text \<open>
  \<open>Birthday.__init__\<close>: any \<open>ValueError\<close> of \<open>strptime\<close> is raised again as the
  field's own; the stored value is the string as given.
\<close>

definition Birthday :: "string \<Rightarrow> error + string" where
  "Birthday v = (case strptime_dmY v of Inl e \<Rightarrow> Inl InvalidDate | Inr d \<Rightarrow> Inr v)"

definition add_birthday :: "string \<Rightarrow> Record \<Rightarrow> (error + unit) \<times> Record" where
  "add_birthday b r =
     (case Birthday b of
        Inl e \<Rightarrow> (Inl e, r)
      | Inr v \<Rightarrow> (Inr (), r\<lparr>birthday := Some v\<rparr>))"

section \<open>AddressBook\<close>

text \<open>
  \<open>self.data\<close> is a \<open>dict\<close> from names to records. It is modelled as the list of its
  items in iteration order: assigning to a key that is present replaces the value where
  it stands, assigning to a new key appends the item, and \<open>pop\<close> removes the item.
\<close>

type_synonym AddressBook = "(string \<times> Record) list"

fun dict_set :: "'k \<Rightarrow> 'v \<Rightarrow> ('k \<times> 'v) list \<Rightarrow> ('k \<times> 'v) list" where
  "dict_set k v [] = [(k, v)]"
| "dict_set k v ((k', v') # items) =
     (if k' = k then (k, v) # items else (k', v') # dict_set k v items)"

definition dict_pop :: "'k \<Rightarrow> ('k \<times> 'v) list \<Rightarrow> ('k \<times> 'v) list" where
  "dict_pop k items = filter (\<lambda>item. fst item \<noteq> k) items"

definition dict_values :: "('k \<times> 'v) list \<Rightarrow> 'v list" where
  "dict_values items = map snd items"

definition AddressBook_init :: AddressBook where
  "AddressBook_init = []"

definition add_record :: "Record \<Rightarrow> AddressBook \<Rightarrow> AddressBook" where
  "add_record record book = dict_set (name record) record book"

definition find_record :: "string \<Rightarrow> AddressBook \<Rightarrow> Record option" where
  "find_record nm book = map_of book nm"

definition delete :: "string \<Rightarrow> AddressBook \<Rightarrow> AddressBook" where
  "delete nm book = dict_pop nm book"

text \<open>
  The body of the loop of \<open>get_upcoming_birthdays\<close> for one record: \<open>Inr None\<close> when
  the record adds nothing, \<open>Inr (Some entry)\<close> when it appends \<open>entry\<close>, \<open>Inl\<close> when a
  call in it raises. An entry is the pair of the values under \<open>"name"\<close> and
  \<open>"birthday"\<close>. \<open>today\<close> is the date that \<open>datetime.today().date()\<close> returns.
\<close>

definition upcoming_entry :: "date \<Rightarrow> Record \<Rightarrow> error + (string \<times> string) option" where
  "upcoming_entry today rec =
     (case birthday rec of
        None \<Rightarrow> Inr None
      | Some v \<Rightarrow>
         (case strptime_dmY v of
            Inl e \<Rightarrow> Inl e
          | Inr bday_date \<Rightarrow>
             (case replace_year bday_date (year today) of
                Inl e \<Rightarrow> Inl e
              | Inr this_year \<Rightarrow>
                 (case (if date_less this_year today
                        then replace_year this_year (year today + 1)
                        else Inr this_year) of
                    Inl e \<Rightarrow> Inl e
                  | Inr bday_this_year \<Rightarrow>
                     (let days = toordinal bday_this_year - toordinal today
                      in if 0 \<le> days \<and> days \<le> 7 then
                           (case (if weekday bday_this_year \<ge> 5
                                  then date_add bday_this_year (7 - weekday bday_this_year)
                                  else Inr bday_this_year) of
                              Inl e \<Rightarrow> Inl e
                            | Inr reported \<Rightarrow>
                                Inr (Some (name rec, strftime_dmY reported)))
                         else Inr None)))))"

fun upcoming_loop :: "date \<Rightarrow> Record list \<Rightarrow> (string \<times> string) list \<Rightarrow> error + (string \<times> string) list" where
  "upcoming_loop today [] upcoming = Inr upcoming"
| "upcoming_loop today (rec # recs) upcoming =
     (case upcoming_entry today rec of
        Inl e \<Rightarrow> Inl e
      | Inr None \<Rightarrow> upcoming_loop today recs upcoming
      | Inr (Some entry) \<Rightarrow> upcoming_loop today recs (upcoming @ [entry]))"

definition get_upcoming_birthdays :: "date \<Rightarrow> AddressBook \<Rightarrow> error + (string \<times> string) list" where
  "get_upcoming_birthdays today book = upcoming_loop today (dict_values book) []"

section \<open>Loading the snapshot\<close>

text \<open>
  \<open>AddressBook.load\<close> opens the file and unpickles it inside a \<open>try\<close> whose handler
  names \<open>FileNotFoundError\<close> and \<open>pickle.PickleError\<close>. The file is either missing
  or has some bytes as its contents. \<open>pickle.load\<close> raises \<open>EOFError\<close> when it finds
  no byte to read; what it makes of a file that is not empty is the parameter
  \<open>unpickle\<close>. A raised exception is named by its class.
\<close>

datatype py_exception =
    FileNotFoundError
  | PickleError
  | PicklingError
  | UnpicklingError
  | EOFError
  | AttributeError
  | ImportError
  | IndexError

datatype file_state = Missing | Contents "nat list"

text \<open>\<open>PicklingError\<close> and \<open>UnpicklingError\<close> are the subclasses of \<open>PickleError\<close>.\<close>

definition is_PickleError :: "py_exception \<Rightarrow> bool" where
  "is_PickleError e = (e = PickleError \<or> e = PicklingError \<or> e = UnpicklingError)"

definition pickle_load :: "(nat list \<Rightarrow> py_exception + AddressBook) \<Rightarrow> nat list \<Rightarrow> py_exception + AddressBook" where
  "pickle_load unpickle bytes = (if bytes = [] then Inl EOFError else unpickle bytes)"

definition open_and_load :: "(nat list \<Rightarrow> py_exception + AddressBook) \<Rightarrow> file_state \<Rightarrow> py_exception + AddressBook" where
  "open_and_load unpickle file =
     (case file of
        Missing \<Rightarrow> Inl FileNotFoundError
      | Contents bytes \<Rightarrow> pickle_load unpickle bytes)"

text \<open>
  \<open>load\<close> returns the new \<open>self.data\<close>, or \<open>Inl\<close> the exception that leaves it.
\<close>

definition load :: "(nat list \<Rightarrow> py_exception + AddressBook) \<Rightarrow> file_state \<Rightarrow> py_exception + AddressBook" where
  "load unpickle file =
     (case open_and_load unpickle file of
        Inr data \<Rightarrow> Inr data
      | Inl e \<Rightarrow> if e = FileNotFoundError \<or> is_PickleError e then Inr [] else Inl e)"

section \<open>Notions of the specification\<close>

text \<open>
  The words of the specification, as predicates and functions of their own; the
  theorems compare the code above with them.
\<close>

subsection \<open>Phones\<close>

text \<open>The raw string with every \<open>+\<close>, \<open>-\<close> and space deleted.\<close>

definition strip_separators :: "string \<Rightarrow> string" where
  "strip_separators raw = filter (\<lambda>c. c \<noteq> CHR ''+'' \<and> c \<noteq> CHR ''-'' \<and> c \<noteq> CHR '' '') raw"

definition all_digits :: "string \<Rightarrow> bool" where
  "all_digits s = (\<forall>c \<in> set s. c \<in> set ''0123456789'')"




subsection \<open>Example records\<close>

definition rec1 :: Record where
  "rec1 = \<lparr>name = ''Ann'', phones = [''1234567890''], email = [], birthday = None\<rparr>"

definition rec2 :: Record where
  "rec2 = \<lparr>name = ''Bob'', phones = [''380501234567''], email = [], birthday = None\<rparr>"

subsection \<open>The address book\<close>

text \<open>Every key is the name of the record stored under it; no key occurs twice.\<close>

definition keys_are_names :: "AddressBook \<Rightarrow> bool" where
  "keys_are_names book = (\<forall>(k, r) \<in> set book. k = name r)"

definition unique_keys :: "AddressBook \<Rightarrow> bool" where
  "unique_keys book = distinct (map fst book)"

text \<open>
  A record found in the book is the stored object itself, so a method called on it
  changes the book in place: \<open>update_stored nm f\<close> applies \<open>f\<close> to the record under
  \<open>nm\<close>. The books that the operations can build from the empty one are \<open>reachable\<close>.
\<close>

definition update_stored :: "string \<Rightarrow> (Record \<Rightarrow> Record) \<Rightarrow> AddressBook \<Rightarrow> AddressBook" where
  "update_stored nm f book = map (\<lambda>(k, r). if k = nm then (k, f r) else (k, r)) book"

inductive reachable :: "AddressBook \<Rightarrow> bool" where
  init: "reachable AddressBook_init"
| added: "reachable book \<Longrightarrow> reachable (add_record record book)"
| deleted: "reachable book \<Longrightarrow> reachable (delete nm book)"
| phone_added: "reachable book \<Longrightarrow> reachable (update_stored nm (\<lambda>r. snd (add_phone p r)) book)"
| phone_removed: "reachable book \<Longrightarrow> reachable (update_stored nm (remove_phone p) book)"
| phone_edited: "reachable book \<Longrightarrow> reachable (update_stored nm (\<lambda>r. snd (edit_phone old new r)) book)"
| birthday_added: "reachable book \<Longrightarrow> reachable (update_stored nm (\<lambda>r. snd (add_birthday b r)) book)"

text \<open>An example book.\<close>

definition book1 :: AddressBook where
  "book1 = [(''Ann'', rec1), (''Bob'', rec2)]"

subsection \<open>Birthdays\<close>

text \<open>A month and a day of that month, whatever the year.\<close>

definition valid_md :: "date \<Rightarrow> bool" where
  "valid_md d = (1 \<le> month d \<and> month d \<le> 12 \<and> 1 \<le> day d \<and> day d \<le> days_in_month (year d) (month d))"

text \<open>The date a record's birthday string stands for.\<close>

definition birthday_date :: "Record \<Rightarrow> date option" where
  "birthday_date r =
     (case birthday r of
        None \<Rightarrow> None
      | Some v \<Rightarrow> (case strptime_dmY v of Inl e \<Rightarrow> None | Inr d \<Rightarrow> Some d))"

text \<open>
  The next occurrence of a birthday: its day and month in today's year, a year later
  when that date is before today.
\<close>

definition next_occurrence :: "date \<Rightarrow> date \<Rightarrow> date" where
  "next_occurrence today bd =
     (let this_year = \<lparr>year = year today, month = month bd, day = day bd\<rparr>
      in if date_less this_year today then this_year\<lparr>year := year today + 1\<rparr> else this_year)"

text \<open>Whole days from today to a date.\<close>

definition days_from :: "date \<Rightarrow> date \<Rightarrow> int" where
  "days_from today d = toordinal d - toordinal today"

text \<open>
  A record is in the window when it has a birthday whose next occurrence is 0 to 7 days
  from today.
\<close>

definition in_window :: "date \<Rightarrow> Record \<Rightarrow> bool" where
  "in_window today r =
     (case birthday_date r of
        None \<Rightarrow> False
      | Some bd \<Rightarrow> 0 \<le> days_from today (next_occurrence today bd) \<and>
                   days_from today (next_occurrence today bd) \<le> 7)"

text \<open>
  A Saturday (weekday 5) or Sunday (weekday 6) moves forward by \<open>7 - weekday\<close> days;
  any other day stays. The reported date of a record is its next occurrence, moved so.
\<close>

definition roll_forward :: "date \<Rightarrow> date" where
  "roll_forward occ =
     (if weekday occ = 5 \<or> weekday occ = 6 then add_days (nat (7 - weekday occ)) occ else occ)"

definition reported_date :: "date \<Rightarrow> Record \<Rightarrow> date" where
  "reported_date today r =
     (case birthday_date r of
        None \<Rightarrow> today
      | Some bd \<Rightarrow> roll_forward (next_occurrence today bd))"

text \<open>
  Two parts of the loop body by themselves, for the proofs: the date it works with after
  the year substitutions, and the entry the specification asks for.
\<close>

definition occurrence :: "date \<Rightarrow> date \<Rightarrow> error + date" where
  "occurrence today bday_date =
     (case replace_year bday_date (year today) of
        Inl e \<Rightarrow> Inl e
      | Inr this_year \<Rightarrow>
          if date_less this_year today then replace_year this_year (year today + 1)
          else Inr this_year)"

definition spec_entry :: "date \<Rightarrow> Record \<Rightarrow> (string \<times> string) option" where
  "spec_entry today r =
     (if in_window today r then Some (name r, strftime_dmY (reported_date today r)) else None)"

text \<open>The format \<open>DD.MM.YYYY\<close>: two digits, a dot, two digits, a dot, four digits.\<close>

definition two_digits :: "int \<Rightarrow> string" where
  "two_digits n = [digit_char (nat (n div 10)), digit_char (nat (n mod 10))]"

definition four_digits :: "int \<Rightarrow> string" where
  "four_digits n =
     [digit_char (nat (n div 1000)), digit_char (nat (n div 100 mod 10)),
      digit_char (nat (n div 10 mod 10)), digit_char (nat (n mod 10))]"

definition DD_MM_YYYY :: "date \<Rightarrow> string" where
  "DD_MM_YYYY d = two_digits (day d) @ ''.'' @ two_digits (month d) @ ''.'' @ four_digits (year d)"

subsection \<open>Example dates and books\<close>

text \<open>10 June 2024 is a Monday; 14 June 2024 a Friday, 15 June 2024 a Saturday.\<close>

definition today1 :: date where
  "today1 = \<lparr>year = 2024, month = 6, day = 10\<rparr>"

definition today2 :: date where
  "today2 = \<lparr>year = 2023, month = 6, day = 10\<rparr>"

definition rec_fri :: Record where
  "rec_fri = \<lparr>name = ''Fri'', phones = [], email = [], birthday = Some ''14.06.1990''\<rparr>"

definition rec_sat :: Record where
  "rec_sat = \<lparr>name = ''Sat'', phones = [], email = [], birthday = Some ''15.06.1990''\<rparr>"

definition rec_late :: Record where
  "rec_late = \<lparr>name = ''Late'', phones = [], email = [], birthday = Some ''18.06.1990''\<rparr>"

definition rec_leap :: Record where
  "rec_leap = \<lparr>name = ''Leap'', phones = [], email = [], birthday = Some ''29.02.2000''\<rparr>"

definition book2 :: AddressBook where
  "book2 = [(''Fri'', rec_fri), (''Ann'', rec1), (''Sat'', rec_sat), (''Late'', rec_late)]"

definition book3 :: AddressBook where
  "book3 = [(''Ann'', rec1), (''Leap'', rec_leap)]"

subsection \<open>Birthday strings\<close>

text \<open>The number a string of decimal digits stands for.\<close>

definition decimal_value :: "string \<Rightarrow> int" where
  "decimal_value t = foldl (\<lambda>acc c. 10 * acc + digit_value c) 0 t"

text \<open>The parts of a string between its dots.\<close>

fun split_dot :: "string \<Rightarrow> string list" where
  "split_dot [] = [[]]"
| "split_dot (c # cs) =
     (if c = CHR ''.'' then [] # split_dot cs
      else (case split_dot cs of [] \<Rightarrow> [[c]] | t # ts \<Rightarrow> (c # t) # ts))"

text \<open>A year from 1 to 9999, a month of it and a day of that month.\<close>

definition date_exists :: "int \<Rightarrow> int \<Rightarrow> int \<Rightarrow> bool" where
  "date_exists y m d =
     (1 \<le> y \<and> y \<le> 9999 \<and> 1 \<le> m \<and> m \<le> 12 \<and> 1 \<le> d \<and> d \<le> days_in_month y m)"

text \<open>
  A valid calendar date in the exact format \<open>DD.MM.YYYY\<close>: two digits, a dot, two
  digits, a dot and four digits, naming an existing date.
\<close>

definition is_DD_MM_YYYY :: "string \<Rightarrow> bool" where
  "is_DD_MM_YYYY s =
     (case split_dot s of
        [dd, mm, yyyy] \<Rightarrow>
          length dd = 2 \<and> all_digits dd \<and> length mm = 2 \<and> all_digits mm \<and>
          length yyyy = 4 \<and> all_digits yyyy \<and>
          date_exists (decimal_value yyyy) (decimal_value mm) (decimal_value dd)
      | _ \<Rightarrow> False)"

text \<open>
  What the code accepts: the day written with one or two digits, or with a space and one
  digit; the month with one or two digits; the year with exactly four; an existing date.
\<close>

definition day_text :: "string \<Rightarrow> bool" where
  "day_text t =
     ((all_digits t \<and> (length t = 1 \<or> length t = 2)) \<or>
      (length t = 2 \<and> hd t = CHR '' '' \<and> all_digits (tl t)))"

definition day_number :: "string \<Rightarrow> int" where
  "day_number t = decimal_value (filter (\<lambda>c. c \<noteq> CHR '' '') t)"

definition month_text :: "string \<Rightarrow> bool" where
  "month_text t = (all_digits t \<and> (length t = 1 \<or> length t = 2))"

definition accepted_birthday :: "string \<Rightarrow> bool" where
  "accepted_birthday s =
     (case split_dot s of
        [d, m, y] \<Rightarrow>
          day_text d \<and> month_text m \<and> length y = 4 \<and> all_digits y \<and>
          date_exists (decimal_value y) (decimal_value m) (day_number d)
      | _ \<Rightarrow> False)"


section \<open>Phone validation\<close>

lemma cleaned_eq:
  "replace_empty CHR '' '' (replace_empty CHR ''-'' (replace_empty CHR ''+'' v)) = strip_separators v"
  by (induction v) (auto simp: replace_empty_def strip_separators_def)

lemma isdigit_iff: "isdigit s \<longleftrightarrow> s \<noteq> [] \<and> all_digits s"
  by (simp add: isdigit_def all_digits_def list_all_iff isdigit_char_def)

lemma Phone_eq:
  "Phone raw = (if all_digits (strip_separators raw) \<and> (length (strip_separators raw) = 10 \<or> length (strip_separators raw) = 12)
     then Inr (strip_separators raw) else Inl InvalidPhone)"
  unfolding Phone_def cleaned_eq Let_def isdigit_iff by auto



section \<open>Editing a phone\<close>

lemma edit_loop_not_found:
  "fst (edit_phone_loop old new ps) = Inl OldPhoneNotFound \<longleftrightarrow> old \<notin> set ps"
  by (induction ps) (auto simp: Phone_eq split: prod.splits sum.splits)

lemma edit_loop_fail_unchanged:
  "fst (edit_phone_loop old new ps) = Inl e \<Longrightarrow> snd (edit_phone_loop old new ps) = ps"
  by (induction ps) (auto split: prod.splits sum.splits if_splits)

lemma edit_loop_success:
  "fst (edit_phone_loop old new ps) = Inr x \<Longrightarrow>
     \<exists>i v. i < length ps \<and> ps ! i = old \<and> (\<forall>j<i. ps ! j \<noteq> old) \<and> Phone new = Inr v \<and>
           snd (edit_phone_loop old new ps) = ps[i := v]"
proof (induction ps)
  case Nil
  then show ?case by simp
next
  case (Cons p ps)
  show ?case
  proof (cases "p = old")
    case True
    with Cons.prems obtain v where "Phone new = Inr v"
      by (auto split: sum.splits)
    with True have "0 < length (p # ps) \<and> (p # ps) ! 0 = old \<and> (\<forall>j<0. (p # ps) ! j \<noteq> old) \<and>
        Phone new = Inr v \<and> snd (edit_phone_loop old new (p # ps)) = (p # ps)[0 := v]"
      by simp
    then show ?thesis by blast
  next
    case False
    with Cons.prems have "fst (edit_phone_loop old new ps) = Inr x"
      by (auto split: prod.splits)
    from Cons.IH [OF this] obtain i v where iv:
      "i < length ps" "ps ! i = old" "\<forall>j<i. ps ! j \<noteq> old" "Phone new = Inr v"
      "snd (edit_phone_loop old new ps) = ps[i := v]"
      by blast
    have "\<forall>j<Suc i. (p # ps) ! j \<noteq> old"
      using False iv(3) by (auto simp: nth_Cons split: nat.splits)
    moreover have "snd (edit_phone_loop old new (p # ps)) = (p # ps)[Suc i := v]"
      using False iv(5) by (auto split: prod.splits)
    ultimately have "Suc i < length (p # ps) \<and> (p # ps) ! Suc i = old \<and>
        (\<forall>j<Suc i. (p # ps) ! j \<noteq> old) \<and> Phone new = Inr v \<and>
        snd (edit_phone_loop old new (p # ps)) = (p # ps)[Suc i := v]"
      using iv(1,2,4) by simp
    then show ?thesis by blast
  qed
qed

lemma edit_loop_succeeds_iff:
  "(\<exists>x. fst (edit_phone_loop old new ps) = Inr x) \<longleftrightarrow> old \<in> set ps \<and> (\<exists>v. Phone new = Inr v)"
  by (induction ps) (auto split: prod.splits sum.splits)

lemma fst_edit_phone: "fst (edit_phone old new r) = fst (edit_phone_loop old new (phones r))"
  by (simp add: edit_phone_def split: prod.splits)

lemma snd_edit_phone:
  "snd (edit_phone old new r) = r\<lparr>phones := snd (edit_phone_loop old new (phones r))\<rparr>"
  by (simp add: edit_phone_def split: prod.splits)

text \<open>
  Claim C6. \<open>edit_phone\<close> reports \<open>OldPhoneNotFound\<close> exactly when no stored phone
  equals the old value; it succeeds exactly when one does and the new value is valid,
  and then only the first stored phone equal to the old value is replaced, by the
  canonical form of the new one; whenever it fails, the record is as it was.
\<close>

theorem edit_phone_spec:
  "(fst (edit_phone old new r) = Inl OldPhoneNotFound \<longleftrightarrow> old \<notin> set (phones r)) \<and>
   ((\<exists>x. fst (edit_phone old new r) = Inr x) \<longleftrightarrow> old \<in> set (phones r) \<and> (\<exists>v. Phone new = Inr v)) \<and>
   (\<forall>x. fst (edit_phone old new r) = Inr x \<longrightarrow>
      (\<exists>i v. i < length (phones r) \<and> phones r ! i = old \<and> (\<forall>j<i. phones r ! j \<noteq> old) \<and>
             Phone new = Inr v \<and>
             snd (edit_phone old new r) = r\<lparr>phones := (phones r)[i := v]\<rparr>)) \<and>
   (\<forall>e. fst (edit_phone old new r) = Inl e \<longrightarrow> snd (edit_phone old new r) = r)"
proof (intro conjI allI impI)
  show "fst (edit_phone old new r) = Inl OldPhoneNotFound \<longleftrightarrow> old \<notin> set (phones r)"
    by (simp add: fst_edit_phone edit_loop_not_found)
  show "(\<exists>x. fst (edit_phone old new r) = Inr x) \<longleftrightarrow> old \<in> set (phones r) \<and> (\<exists>v. Phone new = Inr v)"
    by (simp add: fst_edit_phone edit_loop_succeeds_iff)
next
  fix x assume "fst (edit_phone old new r) = Inr x"
  then have "fst (edit_phone_loop old new (phones r)) = Inr x"
    by (simp add: fst_edit_phone)
  from edit_loop_success [OF this] show
    "\<exists>i v. i < length (phones r) \<and> phones r ! i = old \<and> (\<forall>j<i. phones r ! j \<noteq> old) \<and>
           Phone new = Inr v \<and> snd (edit_phone old new r) = r\<lparr>phones := (phones r)[i := v]\<rparr>"
    by (auto simp: snd_edit_phone)
next
  fix e assume "fst (edit_phone old new r) = Inl e"
  then have "snd (edit_phone_loop old new (phones r)) = phones r"
    by (simp add: fst_edit_phone edit_loop_fail_unchanged)
  then show "snd (edit_phone old new r) = r"
    by (simp add: snd_edit_phone)
qed

theorem edit_phone_spec_witness:
  "edit_phone ''1234567890'' ''0987654321'' rec1 = (Inr ''Phone updated.'', rec1\<lparr>phones := [''0987654321'']\<rparr>)
   \<and> find_phone ''1234567890'' (snd (edit_phone ''1234567890'' ''0987654321'' rec1)) = None
   \<and> edit_phone ''0000000000'' ''0987654321'' rec1 = (Inl OldPhoneNotFound, rec1)
   \<and> edit_phone ''1234567890'' ''12'' rec1 = (Inl InvalidPhone, rec1)"
  using edit_phone_spec [of "''1234567890''" "''0987654321''" rec1]
    edit_phone_spec [of "''0000000000''" "''0987654321''" rec1]
    edit_phone_spec [of "''1234567890''" "''12''" rec1]
  by (simp add: rec1_def edit_phone_def Phone_def replace_empty_def isdigit_def isdigit_char_def find_phone_def)


section \<open>The invariant of stored phones\<close>















section \<open>The address book\<close>

lemma map_of_dict_set: "map_of (dict_set k v items) = (map_of items)(k \<mapsto> v)"
  by (induction items) (auto simp: fun_eq_iff)

lemma map_of_dict_pop: "map_of (dict_pop k items) = (map_of items)(k := None)"
  by (induction items) (auto simp: dict_pop_def fun_eq_iff)

lemma set_dict_set: "set (dict_set k v items) \<subseteq> insert (k, v) (set items)"
  by (induction items) (auto split: if_splits)

lemma dict_set_mem: "(k, v) \<in> set (dict_set k v items)"
  by (induction items) auto

lemma key_of_dict_set:
  assumes "x \<in> set (dict_set k v items)"
  shows "fst x = k \<or> fst x \<in> set (map fst items)"
proof -
  from assms set_dict_set [of k v items] have "x = (k, v) \<or> x \<in> set items" by blast
  then show ?thesis by auto
qed

lemma distinct_dict_set: "distinct (map fst items) \<Longrightarrow> distinct (map fst (dict_set k v items))"
proof (induction items)
  case Nil
  show ?case by simp
next
  case (Cons a items)
  then have IH: "distinct (map fst (dict_set k v items))" by simp
  show ?case
  proof (cases "fst a = k")
    case True
    with Cons.prems show ?thesis by (cases a) auto
  next
    case False
    have "fst a \<notin> set (map fst (dict_set k v items))"
    proof
      assume "fst a \<in> set (map fst (dict_set k v items))"
      then obtain x where x: "x \<in> set (dict_set k v items)" "fst x = fst a" by auto
      from key_of_dict_set [OF x(1)] x(2) False have "fst a \<in> set (map fst items)" by simp
      with Cons.prems show False by simp
    qed
    with IH False show ?thesis by (cases a) auto
  qed
qed

lemma keys_are_names_add: "keys_are_names book \<Longrightarrow> keys_are_names (add_record r book)"
  using set_dict_set [of "name r" r book] by (auto simp: keys_are_names_def add_record_def)

lemma keys_are_names_delete: "keys_are_names book \<Longrightarrow> keys_are_names (delete nm book)"
  by (auto simp: keys_are_names_def delete_def dict_pop_def)

lemma unique_keys_add: "unique_keys book \<Longrightarrow> unique_keys (add_record r book)"
  by (simp add: unique_keys_def add_record_def distinct_dict_set)

lemma unique_keys_delete: "unique_keys book \<Longrightarrow> unique_keys (delete nm book)"
  by (simp add: unique_keys_def delete_def dict_pop_def distinct_map_filter)

lemma keys_update_stored: "map fst (update_stored nm f book) = map fst book"
  by (induction book) (auto simp: update_stored_def)

lemma keys_are_names_update:
  "(\<And>r. name (f r) = name r) \<Longrightarrow> keys_are_names book \<Longrightarrow> keys_are_names (update_stored nm f book)"
  by (auto simp: keys_are_names_def update_stored_def split: if_splits)

lemma name_add_phone: "name (snd (add_phone p r)) = name r"
  by (simp add: add_phone_def split: sum.splits)

lemma name_remove_phone: "name (remove_phone p r) = name r"
  by (simp add: remove_phone_def)

lemma name_edit_phone: "name (snd (edit_phone old new r)) = name r"
  by (simp add: edit_phone_def split: prod.splits)

lemma name_add_birthday: "name (snd (add_birthday b r)) = name r"
  by (simp add: add_birthday_def split: sum.splits)

lemma reachable_inv: "reachable book \<Longrightarrow> keys_are_names book \<and> unique_keys book"
proof (induction rule: reachable.induct)
  case init
  show ?case by (simp add: AddressBook_init_def keys_are_names_def unique_keys_def)
next
  case (added book r)
  then show ?case by (simp add: keys_are_names_add unique_keys_add)
next
  case (deleted book nm)
  then show ?case by (simp add: keys_are_names_delete unique_keys_delete)
next
  case (phone_added book nm p)
  then show ?case
    by (simp add: keys_are_names_update name_add_phone unique_keys_def keys_update_stored)
next
  case (phone_removed book nm p)
  then show ?case
    by (simp add: keys_are_names_update name_remove_phone unique_keys_def keys_update_stored)
next
  case (phone_edited book nm old new)
  then show ?case
    by (simp add: keys_are_names_update name_edit_phone unique_keys_def keys_update_stored)
next
  case (birthday_added book nm b)
  then show ?case
    by (simp add: keys_are_names_update name_add_birthday unique_keys_def keys_update_stored)
qed

text \<open>
  Claim C7. In every book the operations can build, each key equals the name of the
  record stored under it (and no key occurs twice). \<open>add_record\<close> stores the record
  under its own name, replacing what was there, and leaves the entry of every other name
  as it was; \<open>delete\<close> keeps the invariant, removes the name and leaves the others.
\<close>

theorem keys_equal_names:
  "(reachable book \<longrightarrow> keys_are_names book \<and> unique_keys book) \<and>
   (keys_are_names book \<longrightarrow> keys_are_names (add_record r book)) \<and>
   (name r, r) \<in> set (add_record r book) \<and>
   (\<forall>n. find_record n (add_record r book) = (if n = name r then Some r else find_record n book)) \<and>
   (keys_are_names book \<longrightarrow> keys_are_names (delete nm book)) \<and>
   (\<forall>n. find_record n (delete nm book) = (if n = nm then None else find_record n book))"
proof (intro conjI allI impI)
  assume "reachable book"
  then show "keys_are_names book" "unique_keys book" by (simp_all add: reachable_inv)
next
  assume "keys_are_names book"
  then show "keys_are_names (add_record r book)" by (rule keys_are_names_add)
next
  show "(name r, r) \<in> set (add_record r book)" by (simp add: add_record_def dict_set_mem)
next
  fix n show "find_record n (add_record r book) = (if n = name r then Some r else find_record n book)"
    by (simp add: find_record_def add_record_def map_of_dict_set)
next
  assume "keys_are_names book"
  then show "keys_are_names (delete nm book)" by (rule keys_are_names_delete)
next
  fix n show "find_record n (delete nm book) = (if n = nm then None else find_record n book)"
    by (simp add: find_record_def delete_def map_of_dict_pop)
qed

theorem keys_equal_names_witness:
  "reachable book1 \<and> keys_are_names book1 \<and> unique_keys book1 \<and>
   add_record (rec1\<lparr>email := ''ann@example.org''\<rparr>) book1
     = [(''Ann'', rec1\<lparr>email := ''ann@example.org''\<rparr>), (''Bob'', rec2)] \<and>
   keys_are_names (add_record (rec1\<lparr>email := ''ann@example.org''\<rparr>) book1) \<and>
   find_record ''Bob'' (add_record (rec1\<lparr>email := ''ann@example.org''\<rparr>) book1) = Some rec2 \<and>
   delete ''Ann'' book1 = [(''Bob'', rec2)] \<and>
   keys_are_names (delete ''Ann'' book1)"
proof -
  have "book1 = add_record rec2 (add_record rec1 AddressBook_init)"
    by (simp add: book1_def add_record_def AddressBook_init_def rec1_def rec2_def)
  moreover have "reachable (add_record rec2 (add_record rec1 AddressBook_init))"
    by (intro reachable.intros)
  ultimately have r: "reachable book1"
    by simp
  have a: "add_record (rec1\<lparr>email := ''ann@example.org''\<rparr>) book1
     = [(''Ann'', rec1\<lparr>email := ''ann@example.org''\<rparr>), (''Bob'', rec2)]"
    by (simp add: book1_def add_record_def rec1_def rec2_def)
  have d: "delete ''Ann'' book1 = [(''Bob'', rec2)]"
    by (simp add: book1_def delete_def dict_pop_def)
  have f: "find_record ''Bob'' book1 = Some rec2"
    by (simp add: book1_def find_record_def)
  have n: "name (rec1\<lparr>email := ''ann@example.org''\<rparr>) = ''Ann''"
    by (simp add: rec1_def)
  from r a d f keys_equal_names [of book1 "rec1\<lparr>email := ''ann@example.org''\<rparr>" "''Ann''"]
  show ?thesis by (simp add: n)
qed

section \<open>What the handler of load catches\<close>

lemma load_missing: "load unpickle Missing = Inr []"
  by (simp add: load_def open_and_load_def)

text \<open>
  Claim C8. A missing file resets the book to empty; a file of zero bytes, which an
  interrupted \<open>save\<close> leaves behind, makes \<open>pickle.load\<close> raise \<open>EOFError\<close>, which the
  handler does not name: \<open>load\<close> raises it.
\<close>

theorem load_empty_file_raises: "load unpickle (Contents []) = Inl EOFError"
  by (simp add: load_def open_and_load_def pickle_load_def is_PickleError_def)


section \<open>The calendar\<close>

lemma month_cases:
  "1 \<le> m \<Longrightarrow> m \<le> 12 \<Longrightarrow>
   m = 1 \<or> m = 2 \<or> m = 3 \<or> m = 4 \<or> m = 5 \<or> m = 6 \<or> m = 7 \<or> m = 8 \<or> m = 9 \<or> m = 10 \<or> m = 11 \<or> m = (12::int)"
  by arith

lemma days_in_month_simps:
  "days_in_month y 1 = 31" "days_in_month y 2 = (if is_leap y then 29 else 28)"
  "days_in_month y 3 = 31" "days_in_month y 4 = 30" "days_in_month y 5 = 31"
  "days_in_month y 6 = 30" "days_in_month y 7 = 31" "days_in_month y 8 = 31"
  "days_in_month y 9 = 30" "days_in_month y 10 = 31" "days_in_month y 11 = 30"
  "days_in_month y 12 = 31"
  by (simp_all add: days_in_month_def DAYS_IN_MONTH_def)

lemma days_before_month_simps:
  "days_before_month y 1 = 0" "days_before_month y 2 = 31"
  "days_before_month y 3 = 59 + (if is_leap y then 1 else 0)"
  "days_before_month y 4 = 90 + (if is_leap y then 1 else 0)"
  "days_before_month y 5 = 120 + (if is_leap y then 1 else 0)"
  "days_before_month y 6 = 151 + (if is_leap y then 1 else 0)"
  "days_before_month y 7 = 181 + (if is_leap y then 1 else 0)"
  "days_before_month y 8 = 212 + (if is_leap y then 1 else 0)"
  "days_before_month y 9 = 243 + (if is_leap y then 1 else 0)"
  "days_before_month y 10 = 273 + (if is_leap y then 1 else 0)"
  "days_before_month y 11 = 304 + (if is_leap y then 1 else 0)"
  "days_before_month y 12 = 334 + (if is_leap y then 1 else 0)"
  by (simp_all add: days_before_month_def DAYS_BEFORE_MONTH_def)

lemma days_before_next_month:
  assumes "1 \<le> m" "m < 12"
  shows "days_before_month y (m + 1) = days_before_month y m + days_in_month y m"
proof -
  from assms have "m = 1 \<or> m = 2 \<or> m = 3 \<or> m = 4 \<or> m = 5 \<or> m = 6 \<or> m = 7 \<or> m = 8 \<or> m = 9 \<or> m = 10 \<or> m = 11"
    by arith
  then show ?thesis
    by (elim disjE) (simp_all add: days_in_month_simps days_before_month_simps)
qed

lemma div_step:
  fixes y k :: int
  assumes "0 < k"
  shows "y div k = (y - 1) div k + (if y mod k = 0 then 1 else 0)"
proof (cases "y mod k = 0")
  case True
  then obtain q where q: "y = k * q" by auto
  have "(y - 1) div k = q - 1"
  proof (rule int_div_pos_eq)
    show "y - 1 = k * (q - 1) + (k - 1)" using q by (simp add: algebra_simps)
  qed (use assms in auto)
  with q assms True show ?thesis by simp
next
  case False
  define r where "r = y mod k"
  define q where "q = y div k"
  have y: "y = k * q + r" by (simp add: q_def r_def)
  have r: "0 < r" "r < k"
    using False pos_mod_sign [OF assms, of y] pos_mod_bound [OF assms, of y] by (auto simp: r_def)
  have "(y - 1) div k = q"
  proof (rule int_div_pos_eq)
    show "y - 1 = k * q + (r - 1)" using y by simp
  qed (use r in auto)
  with False show ?thesis by (simp add: q_def)
qed

lemma mod_400_100: "(y::int) mod 400 = 0 \<Longrightarrow> y mod 100 = 0"
proof -
  assume h: "y mod 400 = 0"
  have "y mod 100 = y mod 400 mod 100" by (simp add: mod_mod_cancel)
  with h show ?thesis by simp
qed

lemma mod_100_4: "(y::int) mod 100 = 0 \<Longrightarrow> y mod 4 = 0"
proof -
  assume h: "y mod 100 = 0"
  have "y mod 4 = y mod 100 mod 4" by (simp add: mod_mod_cancel)
  with h show ?thesis by simp
qed

lemma days_before_next_year:
  "days_before_year (y + 1) = days_before_year y + 365 + (if is_leap y then 1 else 0)"
proof -
  define a b c where "a = (y - 1) div 4" and "b = (y - 1) div 100" and "c = (y - 1) div 400"
  define p4 p100 p400 where "p4 = (y mod 4 = 0)" and "p100 = (y mod 100 = 0)"
    and "p400 = (y mod 400 = 0)"
  have e4: "y div 4 = a + (if p4 then 1 else 0)"
    unfolding a_def p4_def by (rule div_step) simp
  have e100: "y div 100 = b + (if p100 then 1 else 0)"
    unfolding b_def p100_def by (rule div_step) simp
  have e400: "y div 400 = c + (if p400 then 1 else 0)"
    unfolding c_def p400_def by (rule div_step) simp
  have imp: "p400 \<longrightarrow> p100" "p100 \<longrightarrow> p4"
    unfolding p4_def p100_def p400_def
    by (intro impI, erule mod_400_100, intro impI, erule mod_100_4)
  have leap: "is_leap y = (p4 \<and> (\<not> p100 \<or> p400))"
    by (simp add: is_leap_def p4_def p100_def p400_def)
  have l: "days_before_year (y + 1) = y * 365 + y div 4 - y div 100 + y div 400"
    by (simp add: days_before_year_def)
  have r: "days_before_year y = (y - 1) * 365 + a - b + c"
    by (simp add: days_before_year_def Let_def a_def b_def c_def)
  show ?thesis
    unfolding l r e4 e100 e400 leap using imp
    by (cases p4; cases p100; cases p400) simp_all
qed

lemma days_before_year_mono: "a \<le> b \<Longrightarrow> days_before_year a \<le> days_before_year b"
proof -
  assume ab: "a \<le> b"
  have step: "days_before_year y \<le> days_before_year (y + 1)" for y
    by (simp add: days_before_next_year)
  have "days_before_year a \<le> days_before_year (a + int n)" for n
  proof (induction n)
    case 0 show ?case by simp
  next
    case (Suc n)
    have "days_before_year (a + int n) \<le> days_before_year (a + int n + 1)" by (rule step)
    moreover have "a + int (Suc n) = a + int n + 1" by simp
    ultimately show ?case using Suc by (simp only:) 
  qed
  from this [of "nat (b - a)"] ab show ?thesis by simp
qed

lemma days_in_month_bounds:
  assumes "1 \<le> m" "m \<le> 12"
  shows "28 \<le> days_in_month y m \<and> days_in_month y m \<le> 31"
  using month_cases [OF assms] by (elim disjE) (simp_all add: days_in_month_simps)

lemma toordinal_next_day:
  assumes "valid_md d"
  shows "toordinal (next_day d) = toordinal d + 1"
proof (cases "day d < days_in_month (year d) (month d)")
  case True
  then show ?thesis by (simp add: next_day_def toordinal_def)
next
  case last: False
  with assms have eq: "day d = days_in_month (year d) (month d)"
    by (simp add: valid_md_def)
  show ?thesis
  proof (cases "month d < 12")
    case True
    with assms have "days_before_month (year d) (month d + 1) =
        days_before_month (year d) (month d) + days_in_month (year d) (month d)"
      by (intro days_before_next_month) (simp_all add: valid_md_def)
    with last True eq show ?thesis by (simp add: next_day_def toordinal_def)
  next
    case False
    with assms have m: "month d = 12" by (simp add: valid_md_def)
    with eq have "day d = 31" by (simp add: days_in_month_simps)
    with m last show ?thesis
      by (simp add: next_day_def toordinal_def days_before_next_year days_before_month_simps
            days_in_month_simps)
  qed
qed

lemma valid_md_next_day:
  assumes "valid_md d"
  shows "valid_md (next_day d)"
proof (cases "day d < days_in_month (year d) (month d)")
  case True
  with assms show ?thesis by (simp add: next_day_def valid_md_def)
next
  case last: False
  show ?thesis
  proof (cases "month d < 12")
    case True
    with assms have "28 \<le> days_in_month (year d) (month d + 1)"
      using days_in_month_bounds [of "month d + 1" "year d"] by (simp add: valid_md_def)
    with last True assms show ?thesis by (simp add: next_day_def valid_md_def)
  next
    case False
    with last show ?thesis by (simp add: next_day_def valid_md_def days_in_month_simps)
  qed
qed

lemma add_days_props:
  "valid_md d \<Longrightarrow> valid_md (add_days n d) \<and> toordinal (add_days n d) = toordinal d + int n"
proof (induction n arbitrary: d)
  case 0
  then show ?case by simp
next
  case (Suc n)
  from Suc.prems have "valid_md (next_day d)" by (rule valid_md_next_day)
  from Suc.IH [OF this] toordinal_next_day [OF Suc.prems] show ?case by simp
qed

lemma year_next_day: "year d \<le> year (next_day d)"
  by (simp add: next_day_def)

lemma year_add_days: "year d \<le> year (add_days n d)"
proof (induction n arbitrary: d)
  case 0
  show ?case by simp
next
  case (Suc n)
  have "year d \<le> year (next_day d)" by (rule year_next_day)
  also have "\<dots> \<le> year (add_days n (next_day d))" by (rule Suc.IH)
  finally show ?case by simp
qed

lemma days_before_month_bounds:
  assumes "1 \<le> m" "m \<le> 12"
  shows "0 \<le> days_before_month y m \<and> days_before_month y m + days_in_month y m \<le> 365 + (if is_leap y then 1 else 0)"
  using month_cases [OF assms] by (elim disjE) (simp_all add: days_in_month_simps days_before_month_simps)

lemma toordinal_bounds:
  assumes "valid_md d"
  shows "days_before_year (year d) < toordinal d \<and> toordinal d \<le> days_before_year (year d + 1)"
proof -
  from assms have m: "1 \<le> month d" "month d \<le> 12" and dd: "1 \<le> day d" "day d \<le> days_in_month (year d) (month d)"
    by (simp_all add: valid_md_def)
  from days_before_month_bounds [OF m, of "year d"] dd show ?thesis
    by (simp add: toordinal_def days_before_next_year split: if_splits)
qed

lemma weekday_after_roll:
  assumes "toordinal r = toordinal b + (7 - weekday b)"
  shows "weekday r = 0"
  using assms unfolding weekday_def by presburger

section \<open>Upcoming birthdays: the code against the specification\<close>

lemma date_new_Inr:
  "date_new y m d = Inr x \<longleftrightarrow>
     x = \<lparr>year = y, month = m, day = d\<rparr> \<and> valid_date \<lparr>year = y, month = m, day = d\<rparr>"
  by (auto simp: date_new_def valid_date_def)

lemma replace_year_Inr:
  "replace_year b y = Inr x \<longleftrightarrow>
     x = \<lparr>year = y, month = month b, day = day b\<rparr> \<and>
     valid_date \<lparr>year = y, month = month b, day = day b\<rparr>"
  by (simp add: replace_year_def date_new_Inr)

lemma weekday_range: "0 \<le> weekday d \<and> weekday d < 7"
  by (simp add: weekday_def)

lemma weekday_ge5: "weekday d \<ge> 5 \<longleftrightarrow> weekday d = 5 \<or> weekday d = 6"
  using weekday_range [of d] by arith

lemma occurrence_Inr:
  assumes "occurrence today bd = Inr occ"
  shows "occ = next_occurrence today bd \<and> valid_date occ"
proof (cases "replace_year bd (year today)")
  case (Inl e)
  with assms show ?thesis by (simp add: occurrence_def)
next
  case (Inr t)
  then have t: "t = \<lparr>year = year today, month = month bd, day = day bd\<rparr>" "valid_date t"
    by (simp_all add: replace_year_Inr)
  show ?thesis
  proof (cases "date_less t today")
    case True
    with assms Inr have "replace_year t (year today + 1) = Inr occ"
      by (simp add: occurrence_def)
    then have "occ = \<lparr>year = year today + 1, month = month t, day = day t\<rparr>" "valid_date occ"
      by (simp_all add: replace_year_Inr)
    with True t show ?thesis by (simp add: next_occurrence_def)
  next
    case False
    with assms Inr have "occ = t" by (simp add: occurrence_def)
    with False t show ?thesis by (simp add: next_occurrence_def)
  qed
qed

lemma upcoming_entry_unfold:
  "upcoming_entry today r =
     (case birthday r of
        None \<Rightarrow> Inr None
      | Some v \<Rightarrow>
         (case strptime_dmY v of
            Inl e \<Rightarrow> Inl e
          | Inr bd \<Rightarrow>
             (case occurrence today bd of
                Inl e \<Rightarrow> Inl e
              | Inr occ \<Rightarrow>
                  if 0 \<le> toordinal occ - toordinal today \<and> toordinal occ - toordinal today \<le> 7 then
                    (case (if weekday occ \<ge> 5 then date_add occ (7 - weekday occ) else Inr occ) of
                       Inl e \<Rightarrow> Inl e
                     | Inr reported \<Rightarrow> Inr (Some (name r, strftime_dmY reported)))
                  else Inr None)))"
  by (simp add: upcoming_entry_def occurrence_def Let_def split: option.splits sum.splits)

lemma date_add_Inr:
  "date_add d k = Inr x \<Longrightarrow> x = add_days (nat k) d \<and> 0 < toordinal d + k \<and> toordinal d + k \<le> MAXORDINAL"
  by (auto simp: date_add_def Let_def split: if_splits)

lemma upcoming_entry_Inr:
  assumes "upcoming_entry today r = Inr res"
  shows "res = spec_entry today r"
proof (cases "birthday r")
  case None
  with assms show ?thesis
    by (simp add: upcoming_entry_unfold spec_entry_def in_window_def birthday_date_def)
next
  case (Some v)
  show ?thesis
  proof (cases "strptime_dmY v")
    case (Inl e)
    with assms Some show ?thesis by (simp add: upcoming_entry_unfold)
  next
    case (Inr bd)
    with Some have bdate: "birthday_date r = Some bd" by (simp add: birthday_date_def)
    show ?thesis
    proof (cases "occurrence today bd")
      case (Inl e)
      with assms Some Inr show ?thesis by (simp add: upcoming_entry_unfold)
    next
      case occ: (Inr occ)
      then have occ_eq: "occ = next_occurrence today bd" by (simp add: occurrence_Inr)
      show ?thesis
      proof (cases "0 \<le> toordinal occ - toordinal today \<and> toordinal occ - toordinal today \<le> 7")
        case False
        with assms Some Inr occ have "res = None"
          by (auto simp: upcoming_entry_unfold split: if_splits)
        moreover from False occ_eq bdate have "\<not> in_window today r"
          by (simp add: in_window_def days_from_def)
        ultimately show ?thesis by (simp add: spec_entry_def)
      next
        case True
        with occ_eq bdate have win: "in_window today r"
          by (simp add: in_window_def days_from_def)
        show ?thesis
        proof (cases "weekday occ \<ge> 5")
          case wk: True
          with assms Some Inr occ True obtain reported where
            rep: "date_add occ (7 - weekday occ) = Inr reported"
            and res: "res = Some (name r, strftime_dmY reported)"
            by (auto simp: upcoming_entry_unfold split: sum.splits if_splits)
          from rep have "reported = add_days (nat (7 - weekday occ)) occ"
            by (simp add: date_add_Inr)
          with wk have "reported = roll_forward occ"
            by (simp add: roll_forward_def weekday_ge5)
          with res win occ_eq bdate show ?thesis
            by (simp add: spec_entry_def reported_date_def)
        next
          case wk: False
          with assms Some Inr occ True have res: "res = Some (name r, strftime_dmY occ)"
            by (auto simp: upcoming_entry_unfold split: if_splits)
          from wk have "roll_forward occ = occ"
            by (simp add: roll_forward_def weekday_ge5)
          with res win occ_eq bdate show ?thesis
            by (simp add: spec_entry_def reported_date_def)
        qed
      qed
    qed
  qed
qed

lemma upcoming_loop_Inr:
  "upcoming_loop today recs acc = Inr out \<Longrightarrow>
     out = acc @ List.map_filter (spec_entry today) recs"
proof (induction recs arbitrary: acc)
  case Nil
  then show ?case by simp
next
  case (Cons r recs)
  show ?case
  proof (cases "upcoming_entry today r")
    case (Inl e)
    with Cons.prems show ?thesis by simp
  next
    case (Inr res)
    then have res: "res = spec_entry today r" by (rule upcoming_entry_Inr)
    show ?thesis
    proof (cases res)
      case None
      with Cons.prems Inr have "upcoming_loop today recs acc = Inr out" by simp
      from Cons.IH [OF this] None res show ?thesis by simp
    next
      case (Some entry)
      with Cons.prems Inr have "upcoming_loop today recs (acc @ [entry]) = Inr out" by simp
      from Cons.IH [OF this] Some res show ?thesis by simp
    qed
  qed
qed

lemma map_filter_spec_entry:
  "List.map_filter (spec_entry today) recs =
     map (\<lambda>r. (name r, strftime_dmY (reported_date today r))) (filter (in_window today) recs)"
  by (induction recs) (simp_all add: spec_entry_def)

lemma get_upcoming_birthdays_Inr:
  assumes "get_upcoming_birthdays today book = Inr out"
  shows "out = map (\<lambda>r. (name r, strftime_dmY (reported_date today r)))
                 (filter (in_window today) (dict_values book))"
  using upcoming_loop_Inr [of today "dict_values book" "[]" out] assms
  by (simp add: get_upcoming_birthdays_def map_filter_spec_entry)

lemma loop_entries_ok:
  "upcoming_loop today recs acc = Inr out \<Longrightarrow> r \<in> set recs \<Longrightarrow>
     \<exists>res. upcoming_entry today r = Inr res"
proof (induction recs arbitrary: acc)
  case Nil
  then show ?case by simp
next
  case (Cons a recs)
  show ?case
  proof (cases "upcoming_entry today a")
    case (Inl e)
    with Cons.prems show ?thesis by simp
  next
    case (Inr res)
    show ?thesis
    proof (cases "r = a")
      case True
      with Inr show ?thesis by simp
    next
      case False
      with Cons.prems have mem: "r \<in> set recs" by simp
      from Cons.prems(1) Inr obtain acc' where "upcoming_loop today recs acc' = Inr out"
        by (cases res) auto
      from Cons.IH [OF this mem] show ?thesis .
    qed
  qed
qed

lemma loop_fails:
  assumes "r \<in> set recs" "upcoming_entry today r = Inl e"
  shows "\<exists>e'. upcoming_loop today recs acc = Inl e'"
proof (cases "upcoming_loop today recs acc")
  case (Inl e')
  then show ?thesis by blast
next
  case (Inr out)
  from loop_entries_ok [OF this assms(1)] assms(2) show ?thesis by simp
qed

lemma loop_succeeds:
  "(\<And>r. r \<in> set recs \<Longrightarrow> \<exists>res. upcoming_entry today r = Inr res) \<Longrightarrow>
     \<exists>out. upcoming_loop today recs acc = Inr out"
proof (induction recs arbitrary: acc)
  case Nil
  show ?case by simp
next
  case (Cons a recs)
  from Cons.prems [of a] obtain res where res: "upcoming_entry today a = Inr res" by auto
  have "\<exists>out. upcoming_loop today recs acc' = Inr out" for acc'
    by (rule Cons.IH) (simp add: Cons.prems)
  with res show ?case by (cases res) simp_all
qed

lemma is_leap_succ: "is_leap y \<Longrightarrow> \<not> is_leap (y + 1)"
proof -
  assume "is_leap y"
  then have "y mod 4 = 0" by (simp add: is_leap_def)
  then have "(y + 1) mod 4 \<noteq> 0" by presburger
  then show ?thesis by (simp add: is_leap_def)
qed

lemma strptime_valid: "strptime_dmY v = Inr bd \<Longrightarrow> valid_date bd"
  by (auto simp: strptime_dmY_def date_new_Inr split: option.splits prod.splits)

lemma feb29_in_common_year:
  "\<not> is_leap y \<Longrightarrow> \<not> valid_date \<lparr>year = y, month = 2, day = 29\<rparr>"
  by (simp add: valid_date_def days_in_month_simps)

lemma feb29_entry_fails:
  assumes "birthday r = Some v" "strptime_dmY v = Inr bd" "month bd = 2" "day bd = 29"
    and "\<not> is_leap (year today) \<or> date_less \<lparr>year = year today, month = 2, day = 29\<rparr> today"
  shows "upcoming_entry today r = Inl DateOutOfRange"
proof -
  have rep: "replace_year d y = Inl DateOutOfRange" if "\<not> is_leap y" "month d = 2" "day d = 29" for d y
    using that by (simp add: replace_year_def date_new_def days_in_month_simps)
  have "occurrence today bd = Inl DateOutOfRange"
  proof (cases "is_leap (year today)")
    case False
    with assms(3,4) show ?thesis by (simp add: occurrence_def rep)
  next
    case True
    with assms(5) have less: "date_less \<lparr>year = year today, month = 2, day = 29\<rparr> today" by simp
    from True have nl: "\<not> is_leap (year today + 1)" by (rule is_leap_succ)
    show ?thesis
    proof (cases "replace_year bd (year today)")
      case (Inl e)
      then have "e = DateOutOfRange"
        by (auto simp: replace_year_def date_new_def split: if_splits)
      with Inl show ?thesis by (simp add: occurrence_def)
    next
      case (Inr t)
      with assms(3,4) have t: "t = \<lparr>year = year today, month = 2, day = 29\<rparr>"
        by (simp add: replace_year_Inr)
      with nl have "replace_year t (year today + 1) = Inl DateOutOfRange"
        by (intro rep) simp_all
      with Inr t less show ?thesis by (simp add: occurrence_def)
    qed
  qed
  with assms(1,2) show ?thesis by (simp add: upcoming_entry_unfold)
qed

text \<open>
  Claim C3. With a record whose birthday is 29 February in the book,
  \<open>get_upcoming_birthdays\<close> raises whenever the year it substitutes is not a leap year:
  today's year, or the year after when 29 February of this (leap) year is already past.
\<close>

theorem feb29_fails:
  assumes "r \<in> set (dict_values book)" "birthday r = Some v" "strptime_dmY v = Inr bd"
    and "month bd = 2" "day bd = 29"
    and "\<not> is_leap (year today) \<or> date_less \<lparr>year = year today, month = 2, day = 29\<rparr> today"
  shows "\<exists>e. get_upcoming_birthdays today book = Inl e"
  unfolding get_upcoming_birthdays_def
  using assms(1) feb29_entry_fails [OF assms(2-6)] by (rule loop_fails)

lemma valid_date_md: "valid_date d \<Longrightarrow> valid_md d"
  by (simp add: valid_date_def valid_md_def)

lemma replace_year_ok:
  assumes "valid_date bd" "\<not> (month bd = 2 \<and> day bd = 29)" "1 \<le> y" "y \<le> 9999"
  shows "valid_date \<lparr>year = y, month = month bd, day = day bd\<rparr>"
proof -
  from assms(1) have m: "1 \<le> month bd" "month bd \<le> 12"
    and d: "1 \<le> day bd" "day bd \<le> days_in_month (year bd) (month bd)"
    by (simp_all add: valid_date_def)
  have "day bd \<le> days_in_month y (month bd)"
  proof (cases "month bd = 2")
    case True
    with d assms(2) have "day bd \<le> 28" by (simp add: days_in_month_simps split: if_splits)
    with True show ?thesis by (simp add: days_in_month_simps)
  next
    case False
    with d show ?thesis by (simp add: days_in_month_def)
  qed
  with m d assms(3,4) show ?thesis by (simp add: valid_date_def MINYEAR_def MAXYEAR_def)
qed

lemma days_before_year_1: "days_before_year 1 = 0"
  by (simp add: days_before_year_def)

lemma days_before_year_9999: "days_before_year 9999 = 3651694"
  by (simp add: days_before_year_def)

lemma toordinal_range:
  assumes "valid_date d" "year d < 9999"
  shows "0 < toordinal d \<and> toordinal d \<le> 3651694"
proof -
  from assms(1) have md: "valid_md d" and y: "1 \<le> year d"
    by (simp_all add: valid_date_md, simp add: valid_date_def MINYEAR_def)
  from toordinal_bounds [OF md] have b: "days_before_year (year d) < toordinal d"
    "toordinal d \<le> days_before_year (year d + 1)" by simp_all
  from y have "days_before_year 1 \<le> days_before_year (year d)" by (rule days_before_year_mono)
  moreover from assms(2) have "days_before_year (year d + 1) \<le> days_before_year 9999"
    by (intro days_before_year_mono) simp
  ultimately show ?thesis using b by (simp add: days_before_year_1 days_before_year_9999)
qed

lemma entry_succeeds:
  assumes today: "valid_date today" "year today < 9999"
    and bday: "birthday r = None \<or> (\<exists>bd. birthday_date r = Some bd \<and> \<not> (month bd = 2 \<and> day bd = 29))"
  shows "\<exists>res. upcoming_entry today r = Inr res"
proof (cases "birthday r")
  case None
  then show ?thesis by (simp add: upcoming_entry_unfold)
next
  case (Some v)
  with bday obtain bd where bd: "strptime_dmY v = Inr bd" "\<not> (month bd = 2 \<and> day bd = 29)"
    by (auto simp: birthday_date_def split: sum.splits)
  from bd(1) have vbd: "valid_date bd" by (rule strptime_valid)
  from today have y: "1 \<le> year today" "year today \<le> 9999" "1 \<le> year today + 1" "year today + 1 \<le> 9999"
    by (simp_all add: valid_date_def MINYEAR_def)
  define t where "t = \<lparr>year = year today, month = month bd, day = day bd\<rparr>"
  have t: "replace_year bd (year today) = Inr t"
    unfolding t_def replace_year_Inr using replace_year_ok [OF vbd bd(2) y(1,2)] by simp
  have "\<exists>occ. occurrence today bd = Inr occ"
  proof (cases "date_less t today")
    case True
    have "replace_year t (year today + 1) = Inr \<lparr>year = year today + 1, month = month bd, day = day bd\<rparr>"
      unfolding replace_year_Inr using replace_year_ok [OF vbd bd(2) y(3,4)] by (simp add: t_def)
    with t True show ?thesis by (simp add: occurrence_def)
  next
    case False
    with t show ?thesis by (simp add: occurrence_def)
  qed
  then obtain occ where occ: "occurrence today bd = Inr occ" by blast
  show ?thesis
  proof (cases "0 \<le> toordinal occ - toordinal today \<and> toordinal occ - toordinal today \<le> 7")
    case False
    with Some bd(1) occ show ?thesis by (auto simp: upcoming_entry_unfold)
  next
    case True
    show ?thesis
    proof (cases "weekday occ \<ge> 5")
      case False
      with True Some bd(1) occ show ?thesis by (auto simp: upcoming_entry_unfold)
    next
      case wk: True
      from toordinal_range [OF today] True weekday_range [of occ] wk
      have "0 < toordinal occ + (7 - weekday occ) \<and> toordinal occ + (7 - weekday occ) \<le> MAXORDINAL"
        by (simp add: MAXORDINAL_def)
      then have "\<exists>rep. date_add occ (7 - weekday occ) = Inr rep"
        by (simp add: date_add_def)
      with True wk Some bd(1) occ show ?thesis by (auto simp: upcoming_entry_unfold)
    qed
  qed
qed

lemma decimal_1: "n < 10 \<Longrightarrow> decimal n = [digit_char n]"
  by (simp add: decimal.simps)

lemma decimal_2:
  assumes "10 \<le> n" "n < 100"
  shows "decimal n = [digit_char (n div 10), digit_char (n mod 10)]"
proof -
  from assms have "n div 10 < 10" by simp
  then have "decimal (n div 10) = [digit_char (n div 10)]" by (rule decimal_1)
  with assms show ?thesis by (subst decimal.simps) simp
qed

lemma decimal_3:
  assumes "100 \<le> n" "n < 1000"
  shows "decimal n = [digit_char (n div 100), digit_char (n div 10 mod 10), digit_char (n mod 10)]"
proof -
  from assms have "10 \<le> n div 10" "n div 10 < 100" by simp_all
  then have "decimal (n div 10) = [digit_char (n div 10 div 10), digit_char (n div 10 mod 10)]"
    by (rule decimal_2)
  moreover have "n div 10 div 10 = n div 100" by (simp add: div_mult2_eq)
  ultimately show ?thesis using assms by (subst decimal.simps) simp
qed

lemma decimal_4:
  assumes "1000 \<le> n" "n < 10000"
  shows "decimal n = [digit_char (n div 1000), digit_char (n div 100 mod 10),
                       digit_char (n div 10 mod 10), digit_char (n mod 10)]"
proof -
  from assms have "100 \<le> n div 10" "n div 10 < 1000" by simp_all
  then have "decimal (n div 10) =
      [digit_char (n div 10 div 100), digit_char (n div 10 div 10 mod 10), digit_char (n div 10 mod 10)]"
    by (rule decimal_3)
  moreover have "n div 10 div 10 = n div 100" "n div 10 div 100 = n div 1000"
    by (simp_all add: div_mult2_eq)
  ultimately show ?thesis using assms by (subst decimal.simps) simp
qed

lemma zero_pad_2:
  assumes "0 \<le> n" "n < 100"
  shows "zero_pad 2 n = two_digits n"
proof (cases "n < 10")
  case True
  with assms have "decimal (nat n) = [digit_char (nat n)]" by (intro decimal_1) simp
  moreover from True assms have "n div 10 = 0" "n mod 10 = n" by simp_all
  ultimately show ?thesis by (simp add: zero_pad_def two_digits_def digit_char_def)
next
  case False
  with assms have "decimal (nat n) = [digit_char (nat n div 10), digit_char (nat n mod 10)]"
    by (intro decimal_2) simp_all
  moreover from assms have "nat n div 10 = nat (n div 10)" "nat n mod 10 = nat (n mod 10)"
    by (simp_all add: nat_div_distrib nat_mod_distrib)
  ultimately show ?thesis by (simp add: zero_pad_def two_digits_def)
qed

lemma zero_pad_4:
  assumes "1000 \<le> n" "n < 10000"
  shows "zero_pad 4 n = four_digits n"
proof -
  from assms have "decimal (nat n) = [digit_char (nat n div 1000), digit_char (nat n div 100 mod 10),
      digit_char (nat n div 10 mod 10), digit_char (nat n mod 10)]"
    by (intro decimal_4) simp_all
  moreover from assms have "nat n div 1000 = nat (n div 1000)" "nat n mod 10 = nat (n mod 10)"
    "nat n div 100 mod 10 = nat (n div 100 mod 10)" "nat n div 10 mod 10 = nat (n div 10 mod 10)"
    by (simp_all add: nat_div_distrib nat_mod_distrib)
  ultimately show ?thesis by (simp add: zero_pad_def four_digits_def)
qed

lemma strftime_DD_MM_YYYY:
  assumes "valid_md d" "1000 \<le> year d" "year d \<le> 9999"
  shows "strftime_dmY d = DD_MM_YYYY d"
proof -
  from assms(1) have m: "1 \<le> month d" "month d \<le> 12" and dd: "1 \<le> day d"
    "day d \<le> days_in_month (year d) (month d)"
    by (simp_all add: valid_md_def)
  from days_in_month_bounds [OF m, of "year d"] dd have "day d \<le> 31" by simp
  with dd m assms(2,3) show ?thesis
    by (simp add: strftime_dmY_def DD_MM_YYYY_def zero_pad_2 zero_pad_4)
qed

lemma days_before_year_10000: "days_before_year 10000 = 3652059"
  by (simp add: days_before_year_def)

lemma year_le_9999:
  assumes "valid_md d" "toordinal d \<le> MAXORDINAL"
  shows "year d \<le> 9999"
proof (rule ccontr)
  assume "\<not> year d \<le> 9999"
  then have "10000 \<le> year d" by simp
  then have "days_before_year 10000 \<le> days_before_year (year d)" by (rule days_before_year_mono)
  with toordinal_bounds [OF assms(1)] assms(2) show False
    by (simp add: days_before_year_10000 MAXORDINAL_def)
qed

text \<open>What a successful run tells about one record in the window.\<close>

lemma reported_props:
  assumes ok: "upcoming_entry today r = Inr res" and win: "in_window today r"
    and bd: "birthday_date r = Some bd"
  shows "valid_date (next_occurrence today bd)"
    and "weekday (next_occurrence today bd) = 5 \<or> weekday (next_occurrence today bd) = 6 \<Longrightarrow>
           toordinal (reported_date today r) =
             toordinal (next_occurrence today bd) + (7 - weekday (next_occurrence today bd)) \<and>
           weekday (reported_date today r) = 0"
    and "\<not> (weekday (next_occurrence today bd) = 5 \<or> weekday (next_occurrence today bd) = 6) \<Longrightarrow>
           reported_date today r = next_occurrence today bd"
    and "valid_md (reported_date today r)"
    and "year today \<le> year (reported_date today r)"
    and "year (reported_date today r) \<le> 9999"
proof -
  from bd obtain v where v: "birthday r = Some v" "strptime_dmY v = Inr bd"
    by (auto simp: birthday_date_def split: option.splits sum.splits)
  from ok v obtain occ where occ: "occurrence today bd = Inr occ"
    by (auto simp: upcoming_entry_unfold split: sum.splits)
  then have occ_eq: "occ = next_occurrence today bd" and valid: "valid_date occ"
    by (simp_all add: occurrence_Inr)
  from valid have md: "valid_md occ" by (rule valid_date_md)
  from win bd occ_eq have inwin: "0 \<le> toordinal occ - toordinal today \<and> toordinal occ - toordinal today \<le> 7"
    by (simp add: in_window_def days_from_def)
  have rep: "reported_date today r = roll_forward occ"
    using bd occ_eq by (simp add: reported_date_def)
  from valid occ_eq show "valid_date (next_occurrence today bd)" by simp
  have yocc: "year today \<le> year occ"
    unfolding occ_eq by (simp add: next_occurrence_def Let_def)
  {
    assume wk: "weekday (next_occurrence today bd) = 5 \<or> weekday (next_occurrence today bd) = 6"
    then have k: "int (nat (7 - weekday occ)) = 7 - weekday occ"
      using occ_eq by auto
    from wk occ_eq have "roll_forward occ = add_days (nat (7 - weekday occ)) occ"
      by (simp add: roll_forward_def)
    with add_days_props [OF md, of "nat (7 - weekday occ)"] k rep
    have "toordinal (reported_date today r) = toordinal occ + (7 - weekday occ)"
      by simp
    moreover from this have "weekday (reported_date today r) = 0" by (rule weekday_after_roll)
    ultimately show "toordinal (reported_date today r) =
             toordinal (next_occurrence today bd) + (7 - weekday (next_occurrence today bd)) \<and>
           weekday (reported_date today r) = 0"
      using occ_eq by simp
  }
  {
    assume "\<not> (weekday (next_occurrence today bd) = 5 \<or> weekday (next_occurrence today bd) = 6)"
    with occ_eq rep show "reported_date today r = next_occurrence today bd"
      by (simp add: roll_forward_def)
  }
  show "valid_md (reported_date today r)"
    unfolding rep roll_forward_def using md add_days_props [OF md] by simp
  show "year today \<le> year (reported_date today r)"
    unfolding rep roll_forward_def using yocc year_add_days [of occ "nat (7 - weekday occ)"] by simp
  show "year (reported_date today r) \<le> 9999"
  proof (cases "weekday occ \<ge> 5")
    case False
    then have "roll_forward occ = occ" by (simp add: roll_forward_def weekday_ge5)
    with valid rep show ?thesis by (simp add: valid_date_def MAXYEAR_def)
  next
    case True
    with ok v occ inwin obtain reported where
      r: "date_add occ (7 - weekday occ) = Inr reported"
      by (auto simp: upcoming_entry_unfold split: sum.splits if_splits)
    from date_add_Inr [OF r] have e: "reported = add_days (nat (7 - weekday occ)) occ"
      and le: "toordinal occ + (7 - weekday occ) \<le> MAXORDINAL" by simp_all
    from True have "roll_forward occ = reported"
      unfolding e by (simp add: roll_forward_def weekday_ge5)
    moreover from True weekday_range [of occ] have "int (nat (7 - weekday occ)) = 7 - weekday occ"
      by simp
    with add_days_props [OF md, of "nat (7 - weekday occ)"] le e
    have "valid_md reported" "toordinal reported \<le> MAXORDINAL" by simp_all
    then have "year reported \<le> 9999" by (rule year_le_9999)
    ultimately show ?thesis using rep by simp
  qed
qed

text \<open>
  Claim C1. When \<open>get_upcoming_birthdays\<close> returns, the names in its result are, in
  the book's order, the names of exactly the records that have a birthday whose next
  occurrence is 0 to 7 whole days from today; a record without a birthday is never among
  them. It does return when today is a valid date before the year 9999 and every stored
  birthday is a valid date other than 29 February.
\<close>

theorem upcoming_in_window:
  "(\<forall>out. get_upcoming_birthdays today book = Inr out \<longrightarrow>
       map fst out = map name (filter (in_window today) (dict_values book))) \<and>
   (\<forall>r. birthday r = None \<longrightarrow> \<not> in_window today r) \<and>
   (valid_date today \<and> year today < 9999 \<and>
    (\<forall>r \<in> set (dict_values book).
        birthday r = None \<or>
        (\<exists>bd. birthday_date r = Some bd \<and> \<not> (month bd = 2 \<and> day bd = 29)))
      \<longrightarrow> (\<exists>out. get_upcoming_birthdays today book = Inr out))"
proof (intro conjI allI impI)
  fix out assume "get_upcoming_birthdays today book = Inr out"
  then have "out = map (\<lambda>r. (name r, strftime_dmY (reported_date today r)))
      (filter (in_window today) (dict_values book))"
    by (rule get_upcoming_birthdays_Inr)
  then show "map fst out = map name (filter (in_window today) (dict_values book))"
    by (simp add: comp_def)
next
  fix r :: Record assume "birthday r = None"
  then show "\<not> in_window today r" by (simp add: in_window_def birthday_date_def)
next
  assume h: "valid_date today \<and> year today < 9999 \<and>
    (\<forall>r \<in> set (dict_values book).
        birthday r = None \<or>
        (\<exists>bd. birthday_date r = Some bd \<and> \<not> (month bd = 2 \<and> day bd = 29)))"
  have "\<exists>out. upcoming_loop today (dict_values book) [] = Inr out"
  proof (rule loop_succeeds)
    fix r assume "r \<in> set (dict_values book)"
    with h show "\<exists>res. upcoming_entry today r = Inr res"
      by (intro entry_succeeds) blast+
  qed
  then show "\<exists>out. get_upcoming_birthdays today book = Inr out"
    by (simp add: get_upcoming_birthdays_def)
qed

theorem upcoming_in_window_witness:
  "get_upcoming_birthdays today1 book2 = Inr [(''Fri'', ''14.06.2024''), (''Sat'', ''17.06.2024'')] \<and>
   filter (in_window today1) (dict_values book2) = [rec_fri, rec_sat] \<and>
   birthday rec1 = None \<and> \<not> in_window today1 rec1 \<and>
   valid_date today1 \<and> year today1 < 9999 \<and>
   dict_values book2 = [rec_fri, rec1, rec_sat, rec_late] \<and>
   birthday_date rec_fri = Some \<lparr>year = 1990, month = 6, day = 14\<rparr> \<and>
   birthday_date rec_sat = Some \<lparr>year = 1990, month = 6, day = 15\<rparr> \<and>
   birthday_date rec_late = Some \<lparr>year = 1990, month = 6, day = 18\<rparr>"
proof -
  have run: "get_upcoming_birthdays today1 book2 =
      Inr [(''Fri'', ''14.06.2024''), (''Sat'', ''17.06.2024'')]"
    by code_simp
  have win: "filter (in_window today1) (dict_values book2) = [rec_fri, rec_sat]"
    by code_simp
  have none: "birthday rec1 = None" by (simp add: rec1_def)
  have today: "valid_date today1" "year today1 < 9999" by code_simp+
  have dates: "birthday_date rec_fri = Some \<lparr>year = 1990, month = 6, day = 14\<rparr>"
    "birthday_date rec_sat = Some \<lparr>year = 1990, month = 6, day = 15\<rparr>"
    "birthday_date rec_late = Some \<lparr>year = 1990, month = 6, day = 18\<rparr>"
    by code_simp+
  have all: "\<forall>r \<in> set (dict_values book2).
        birthday r = None \<or>
        (\<exists>bd. birthday_date r = Some bd \<and> \<not> (month bd = 2 \<and> day bd = 29))"
    using none dates by (simp add: book2_def dict_values_def)
  have vals: "dict_values book2 = [rec_fri, rec1, rec_sat, rec_late]"
    by (simp add: book2_def dict_values_def)
  from upcoming_in_window [of today1 book2] run win none today all vals dates
  show ?thesis by simp
qed

text \<open>
  Claim C2. The date reported for each included record is its next occurrence moved
  forward by \<open>7 - weekday\<close> days when that falls on a Saturday or Sunday, which makes
  it a Monday, and the occurrence itself otherwise; it is written as \<open>DD.MM.YYYY\<close>.
  (Today's year is taken to have four digits, so that the statement does not depend on
  how the platform pads the year.)
\<close>

theorem weekend_rolls_to_monday:
  assumes "get_upcoming_birthdays today book = Inr out" and "1000 \<le> year today"
  shows "map snd out =
           map (\<lambda>r. DD_MM_YYYY (reported_date today r)) (filter (in_window today) (dict_values book)) \<and>
         (\<forall>r \<in> set (filter (in_window today) (dict_values book)).
            \<forall>bd. birthday_date r = Some bd \<longrightarrow>
              (weekday (next_occurrence today bd) = 5 \<or> weekday (next_occurrence today bd) = 6 \<longrightarrow>
                 toordinal (reported_date today r) =
                   toordinal (next_occurrence today bd) + (7 - weekday (next_occurrence today bd)) \<and>
                 weekday (reported_date today r) = 0) \<and>
              (\<not> (weekday (next_occurrence today bd) = 5 \<or> weekday (next_occurrence today bd) = 6) \<longrightarrow>
                 reported_date today r = next_occurrence today bd))"
proof (intro conjI ballI allI impI)
  have ok: "\<exists>res. upcoming_entry today r = Inr res" if "r \<in> set (dict_values book)" for r
    using assms(1) that unfolding get_upcoming_birthdays_def by (rule loop_entries_ok)
  have fmt: "strftime_dmY (reported_date today r) = DD_MM_YYYY (reported_date today r)"
    if "r \<in> set (filter (in_window today) (dict_values book))" for r
  proof -
    from that have mem: "r \<in> set (dict_values book)" and win: "in_window today r" by simp_all
    from ok [OF mem] obtain res where res: "upcoming_entry today r = Inr res" by blast
    from win obtain bd where bd: "birthday_date r = Some bd"
      by (auto simp: in_window_def split: option.splits)
    from reported_props(4,5,6) [OF res win bd] assms(2) show ?thesis
      by (intro strftime_DD_MM_YYYY) simp_all
  qed
  from assms(1) have "out = map (\<lambda>r. (name r, strftime_dmY (reported_date today r)))
      (filter (in_window today) (dict_values book))"
    by (rule get_upcoming_birthdays_Inr)
  then have "map snd out =
      map (\<lambda>r. strftime_dmY (reported_date today r)) (filter (in_window today) (dict_values book))"
    by (simp add: comp_def)
  also have "\<dots> = map (\<lambda>r. DD_MM_YYYY (reported_date today r)) (filter (in_window today) (dict_values book))"
    by (rule map_cong) (simp_all add: fmt del: set_filter)
  finally show "map snd out =
      map (\<lambda>r. DD_MM_YYYY (reported_date today r)) (filter (in_window today) (dict_values book))" .
next
  fix r bd
  assume r: "r \<in> set (filter (in_window today) (dict_values book))"
    and bd: "birthday_date r = Some bd"
    and wk: "weekday (next_occurrence today bd) = 5 \<or> weekday (next_occurrence today bd) = 6"
  from r have mem: "r \<in> set (dict_values book)" and win: "in_window today r" by simp_all
  from assms(1) mem obtain res where res: "upcoming_entry today r = Inr res"
    unfolding get_upcoming_birthdays_def using loop_entries_ok by blast
  from reported_props(2) [OF res win bd wk]
  show "toordinal (reported_date today r) =
          toordinal (next_occurrence today bd) + (7 - weekday (next_occurrence today bd))"
    and "weekday (reported_date today r) = 0"
    by simp_all
next
  fix r bd
  assume r: "r \<in> set (filter (in_window today) (dict_values book))"
    and bd: "birthday_date r = Some bd"
    and wk: "\<not> (weekday (next_occurrence today bd) = 5 \<or> weekday (next_occurrence today bd) = 6)"
  from r have mem: "r \<in> set (dict_values book)" and win: "in_window today r" by simp_all
  from assms(1) mem obtain res where res: "upcoming_entry today r = Inr res"
    unfolding get_upcoming_birthdays_def using loop_entries_ok by blast
  from reported_props(3) [OF res win bd wk]
  show "reported_date today r = next_occurrence today bd" .
qed

theorem weekend_rolls_to_monday_witness:
  "get_upcoming_birthdays today1 book2 = Inr [(''Fri'', ''14.06.2024''), (''Sat'', ''17.06.2024'')] \<and>
   1000 \<le> year today1 \<and>
   filter (in_window today1) (dict_values book2) = [rec_fri, rec_sat] \<and>
   birthday_date rec_sat = Some \<lparr>year = 1990, month = 6, day = 15\<rparr> \<and>
   next_occurrence today1 \<lparr>year = 1990, month = 6, day = 15\<rparr> = \<lparr>year = 2024, month = 6, day = 15\<rparr> \<and>
   weekday \<lparr>year = 2024, month = 6, day = 15\<rparr> = 5 \<and>
   reported_date today1 rec_sat = \<lparr>year = 2024, month = 6, day = 17\<rparr> \<and>
   weekday (reported_date today1 rec_sat) = 0 \<and>
   DD_MM_YYYY (reported_date today1 rec_sat) = ''17.06.2024'' \<and>
   birthday_date rec_fri = Some \<lparr>year = 1990, month = 6, day = 14\<rparr> \<and>
   weekday (next_occurrence today1 \<lparr>year = 1990, month = 6, day = 14\<rparr>) = 4 \<and>
   reported_date today1 rec_fri = next_occurrence today1 \<lparr>year = 1990, month = 6, day = 14\<rparr> \<and>
   DD_MM_YYYY (reported_date today1 rec_fri) = ''14.06.2024''"
proof -
  have run: "get_upcoming_birthdays today1 book2 =
      Inr [(''Fri'', ''14.06.2024''), (''Sat'', ''17.06.2024'')]"
    by code_simp
  have y: "1000 \<le> year today1" by code_simp
  have win: "filter (in_window today1) (dict_values book2) = [rec_fri, rec_sat]"
    by code_simp
  have sat: "birthday_date rec_sat = Some \<lparr>year = 1990, month = 6, day = 15\<rparr>"
    "next_occurrence today1 \<lparr>year = 1990, month = 6, day = 15\<rparr> = \<lparr>year = 2024, month = 6, day = 15\<rparr>"
    "weekday \<lparr>year = 2024, month = 6, day = 15\<rparr> = 5"
    "reported_date today1 rec_sat = \<lparr>year = 2024, month = 6, day = 17\<rparr>"
    by code_simp+
  have fri: "birthday_date rec_fri = Some \<lparr>year = 1990, month = 6, day = 14\<rparr>"
    "weekday (next_occurrence today1 \<lparr>year = 1990, month = 6, day = 14\<rparr>) = 4"
    by code_simp+
  from weekend_rolls_to_monday [OF run y] win sat fri
  show ?thesis by (simp add: run y)
qed

theorem feb29_fails_witness:
  "rec_leap \<in> set (dict_values book3) \<and> birthday rec_leap = Some ''29.02.2000'' \<and>
   strptime_dmY ''29.02.2000'' = Inr \<lparr>year = 2000, month = 2, day = 29\<rparr> \<and>
   \<not> is_leap (year today2) \<and>
   get_upcoming_birthdays today2 book3 = Inl DateOutOfRange \<and>
   is_leap (year today1) \<and> date_less \<lparr>year = year today1, month = 2, day = 29\<rparr> today1 \<and>
   get_upcoming_birthdays today1 book3 = Inl DateOutOfRange"
proof -
  have mem: "rec_leap \<in> set (dict_values book3)" by (simp add: book3_def dict_values_def)
  have b: "birthday rec_leap = Some ''29.02.2000''" by (simp add: rec_leap_def)
  have p: "strptime_dmY ''29.02.2000'' = Inr \<lparr>year = 2000, month = 2, day = 29\<rparr>" by code_simp
  have l2: "\<not> is_leap (year today2)" by code_simp
  have l1: "is_leap (year today1)" "date_less \<lparr>year = year today1, month = 2, day = 29\<rparr> today1"
    by code_simp+
  have run: "get_upcoming_birthdays today2 book3 = Inl DateOutOfRange"
    "get_upcoming_birthdays today1 book3 = Inl DateOutOfRange"
    by code_simp+
  from l2 have h2: "\<not> is_leap (year today2) \<or> date_less \<lparr>year = year today2, month = 2, day = 29\<rparr> today2"
    by simp
  from l1 have h1: "\<not> is_leap (year today1) \<or> date_less \<lparr>year = year today1, month = 2, day = 29\<rparr> today1"
    by simp
  have m: "month \<lparr>year = 2000, month = 2, day = 29\<rparr> = 2" "day \<lparr>year = 2000, month = 2, day = 29\<rparr> = 29"
    by simp_all
  from feb29_fails [OF mem b p m h2] feb29_fails [OF mem b p m h1] mem b p l1 l2 run
  show ?thesis by simp
qed

section \<open>Birthday validation\<close>

lemma digit_iff:
  "c \<in> set ''0123456789'' \<longleftrightarrow>
     c = CHR ''0'' \<or> c = CHR ''1'' \<or> c = CHR ''2'' \<or> c = CHR ''3'' \<or> c = CHR ''4'' \<or>
     c = CHR ''5'' \<or> c = CHR ''6'' \<or> c = CHR ''7'' \<or> c = CHR ''8'' \<or> c = CHR ''9''"
  by auto

lemma digit_value_simps:
  "digit_value CHR ''0'' = 0" "digit_value CHR ''1'' = 1" "digit_value CHR ''2'' = 2"
  "digit_value CHR ''3'' = 3" "digit_value CHR ''4'' = 4" "digit_value CHR ''5'' = 5"
  "digit_value CHR ''6'' = 6" "digit_value CHR ''7'' = 7" "digit_value CHR ''8'' = 8"
  "digit_value CHR ''9'' = 9"
  by (simp_all add: digit_value_def)

lemma digit_facts:
  assumes "c \<in> set ''0123456789''"
  shows "0 \<le> digit_value c" "digit_value c \<le> 9"
    "c = CHR ''0'' \<longleftrightarrow> digit_value c = 0"
    "c = CHR ''1'' \<longleftrightarrow> digit_value c = 1"
    "c = CHR ''2'' \<longleftrightarrow> digit_value c = 2"
    "c = CHR ''3'' \<longleftrightarrow> digit_value c = 3"
    "c \<noteq> CHR '' ''" "c \<noteq> CHR ''.''"
  using assms unfolding digit_iff by (elim disjE; simp add: digit_value_simps)+

lemmas text_defs =
  day_re_def month_re_def day_text_def month_text_def all_digits_def day_number_def
  decimal_value_def digit_value_def isdigit_char_def

lemma day_re_one_digit:
  assumes "a \<in> set ''0123456789''"
  shows "day_re [a] \<longleftrightarrow> day_text [a] \<and> 1 \<le> day_number [a] \<and> day_number [a] \<le> 31"
  using assms unfolding digit_iff by (elim disjE; simp add: text_defs)

lemma day_re_two_digits:
  assumes "a \<in> set ''0123456789''" "b \<in> set ''0123456789''"
  shows "day_re [a, b] \<longleftrightarrow> day_text [a, b] \<and> 1 \<le> day_number [a, b] \<and> day_number [a, b] \<le> 31"
  using assms unfolding digit_iff by (elim disjE; simp add: text_defs)

lemma day_re_space:
  assumes "b \<in> set ''0123456789''"
  shows "day_re [CHR '' '', b] \<longleftrightarrow>
    day_text [CHR '' '', b] \<and> 1 \<le> day_number [CHR '' '', b] \<and> day_number [CHR '' '', b] \<le> 31"
  using assms unfolding digit_iff by (elim disjE; simp add: text_defs)

lemma not_digit_1: "b \<notin> set ''0123456789'' \<Longrightarrow> \<not> day_re [a, b]"
  by (simp add: day_re_def isdigit_char_def)

lemma not_digit_2:
  "a \<notin> set ''0123456789'' \<Longrightarrow> a \<noteq> CHR '' '' \<Longrightarrow> \<not> day_re [a, b]"
  by (simp add: day_re_def)

lemma not_digit_3:
  "a \<notin> set ''0123456789'' \<Longrightarrow> a \<noteq> CHR '' '' \<Longrightarrow> \<not> day_text [a, b]"
  by (simp add: day_text_def all_digits_def)

lemma not_digit_4: "b \<notin> set ''0123456789'' \<Longrightarrow> \<not> day_text [a, b]"
  by (simp add: day_text_def all_digits_def)

lemma not_digit_5: "a \<notin> set ''0123456789'' \<Longrightarrow> \<not> day_re [a] \<and> \<not> day_text [a]"
  by (simp add: day_re_def day_text_def all_digits_def)

lemma day_re_two:
  "day_re [a, b] \<longleftrightarrow> day_text [a, b] \<and> 1 \<le> day_number [a, b] \<and> day_number [a, b] \<le> 31"
proof (cases "b \<in> set ''0123456789''")
  case b: True
  show ?thesis
  proof (cases "a \<in> set ''0123456789''")
    case True
    then show ?thesis using b by (rule day_re_two_digits)
  next
    case na: False
    show ?thesis
    proof (cases "a = CHR '' ''")
      case True
      show ?thesis unfolding True using b by (rule day_re_space)
    next
      case False
      from na False have "\<not> day_re [a, b]" by (rule not_digit_2)
      moreover from na False have "\<not> day_text [a, b]" by (rule not_digit_3)
      ultimately show ?thesis by blast
    qed
  qed
next
  case nb: False
  then have "\<not> day_re [a, b]" by (rule not_digit_1)
  moreover from nb have "\<not> day_text [a, b]" by (rule not_digit_4)
  ultimately show ?thesis by blast
qed

lemma day_re_one:
  "day_re [a] \<longleftrightarrow> day_text [a] \<and> 1 \<le> day_number [a] \<and> day_number [a] \<le> 31"
proof (cases "a \<in> set ''0123456789''")
  case True
  then show ?thesis by (rule day_re_one_digit)
next
  case False
  from not_digit_5 [OF this] show ?thesis by blast
qed

lemma day_re_iff:
  "day_re t \<longleftrightarrow> day_text t \<and> 1 \<le> day_number t \<and> day_number t \<le> 31"
proof (cases t)
  case Nil
  then show ?thesis by (simp add: day_re_def day_text_def)
next
  case (Cons a u)
  show ?thesis
  proof (cases u)
    case Nil
    show ?thesis unfolding \<open>t = a # u\<close> Nil by (rule day_re_one)
  next
    case (Cons b w)
    show ?thesis
    proof (cases w)
      case Nil
      show ?thesis unfolding \<open>t = a # u\<close> \<open>u = b # w\<close> Nil by (rule day_re_two)
    next
      case (Cons c x)
      have "\<not> day_re t" unfolding \<open>t = a # u\<close> \<open>u = b # w\<close> Cons by (simp add: day_re_def)
      moreover have "\<not> day_text t"
        unfolding \<open>t = a # u\<close> \<open>u = b # w\<close> Cons by (simp add: day_text_def)
      ultimately show ?thesis by blast
    qed
  qed
qed

lemma month_re_one_digit:
  assumes "a \<in> set ''0123456789''"
  shows "month_re [a] \<longleftrightarrow> month_text [a] \<and> 1 \<le> decimal_value [a] \<and> decimal_value [a] \<le> 12"
  using assms unfolding digit_iff by (elim disjE; simp add: text_defs)

lemma month_re_two_digits:
  assumes "a \<in> set ''0123456789''" "b \<in> set ''0123456789''"
  shows "month_re [a, b] \<longleftrightarrow>
    month_text [a, b] \<and> 1 \<le> decimal_value [a, b] \<and> decimal_value [a, b] \<le> 12"
  using assms unfolding digit_iff by (elim disjE; simp add: text_defs)

lemma month_not_digit_1: "a \<notin> set ''0123456789'' \<Longrightarrow> \<not> month_re [a] \<and> \<not> month_text [a]"
  by (simp add: month_re_def month_text_def all_digits_def)

lemma month_not_digit_2:
  "a \<notin> set ''0123456789'' \<Longrightarrow> \<not> month_re [a, b] \<and> \<not> month_text [a, b]"
  by (simp add: month_re_def month_text_def all_digits_def)

lemma month_not_digit_3:
  "b \<notin> set ''0123456789'' \<Longrightarrow> \<not> month_re [a, b] \<and> \<not> month_text [a, b]"
  by (simp add: month_re_def month_text_def all_digits_def)

lemma month_re_iff:
  "month_re t \<longleftrightarrow> month_text t \<and> 1 \<le> decimal_value t \<and> decimal_value t \<le> 12"
proof (cases t)
  case Nil
  then show ?thesis by (simp add: month_re_def month_text_def)
next
  case (Cons a u)
  show ?thesis
  proof (cases u)
    case Nil
    show ?thesis
    proof (cases "a \<in> set ''0123456789''")
      case True
      show ?thesis unfolding \<open>t = a # u\<close> Nil using True by (rule month_re_one_digit)
    next
      case False
      from month_not_digit_1 [OF this] show ?thesis unfolding \<open>t = a # u\<close> Nil by blast
    qed
  next
    case (Cons b w)
    show ?thesis
    proof (cases w)
      case Nil
      show ?thesis
      proof (cases "a \<in> set ''0123456789''")
        case a: True
        show ?thesis
        proof (cases "b \<in> set ''0123456789''")
          case True
          show ?thesis unfolding \<open>t = a # u\<close> \<open>u = b # w\<close> Nil
            using a True by (rule month_re_two_digits)
        next
          case False
          from month_not_digit_3 [OF this] show ?thesis
            unfolding \<open>t = a # u\<close> \<open>u = b # w\<close> Nil by blast
        qed
      next
        case False
        from month_not_digit_2 [OF this] show ?thesis
          unfolding \<open>t = a # u\<close> \<open>u = b # w\<close> Nil by blast
      qed
    next
      case (Cons c x)
      have "\<not> month_re t" unfolding \<open>t = a # u\<close> \<open>u = b # w\<close> Cons by (simp add: month_re_def)
      moreover have "\<not> month_text t"
        unfolding \<open>t = a # u\<close> \<open>u = b # w\<close> Cons by (simp add: month_text_def)
      ultimately show ?thesis by blast
    qed
  qed
qed

lemma year_re_iff: "year_re t \<longleftrightarrow> length t = 4 \<and> all_digits t"
  by (simp add: year_re_def all_digits_def list_all_iff isdigit_char_def)

lemma all_digits_not_space:
  assumes "all_digits t" "c \<in> set t"
  shows "c \<noteq> CHR '' ''"
proof -
  from assms have "c \<in> set ''0123456789''" unfolding all_digits_def by blast
  then show ?thesis by (rule digit_facts)
qed

lemma all_digits_not_dot:
  assumes "all_digits t" "c \<in> set t"
  shows "c \<noteq> CHR ''.''"
proof -
  from assms have "c \<in> set ''0123456789''" unfolding all_digits_def by blast
  then show ?thesis by (rule digit_facts)
qed

lemma py_int_digits:
  assumes "all_digits t"
  shows "py_int t = decimal_value t"
proof (cases t)
  case Nil
  then show ?thesis by (simp add: py_int_def decimal_value_def)
next
  case (Cons a u)
  then have "a \<in> set t" by simp
  with assms have "a \<noteq> CHR '' ''" by (rule all_digits_not_space)
  with Cons show ?thesis by (simp add: py_int_def decimal_value_def)
qed

lemma filter_space_digits:
  assumes "all_digits t"
  shows "filter (\<lambda>c. c \<noteq> CHR '' '') t = t"
  using all_digits_not_space [OF assms] by (simp add: filter_id_conv)

lemma day_number_digits: "all_digits t \<Longrightarrow> day_number t = decimal_value t"
  by (simp add: day_number_def filter_space_digits)

lemma all_digits_Cons: "all_digits (a # u) \<longleftrightarrow> all_digits [a] \<and> all_digits u"
  unfolding all_digits_def by (simp del: set_simps add: list.set)

lemma py_int_day:
  assumes "day_text t"
  shows "py_int t = day_number t"
proof (cases "all_digits t")
  case True
  then show ?thesis by (simp add: py_int_digits day_number_digits)
next
  case False
  with assms have "length t = 2" "hd t = CHR '' ''" "all_digits (tl t)"
    unfolding day_text_def by blast+
  then obtain b where t: "t = [CHR '' '', b]" and b: "all_digits [b]"
    by (cases t; cases "tl t") auto
  from b have "b \<noteq> CHR '' ''" by (rule all_digits_not_space) simp
  with t show ?thesis by (simp add: py_int_def day_number_def decimal_value_def)
qed

lemma split_dot_unfold:
  "split_dot s =
     takeWhile (\<lambda>c. c \<noteq> CHR ''.'') s #
     (case dropWhile (\<lambda>c. c \<noteq> CHR ''.'') s of [] \<Rightarrow> [] | c # r \<Rightarrow> split_dot r)"
proof (induction s)
  case Nil
  show ?case by simp
next
  case (Cons a s)
  show ?case
  proof (cases "a = CHR ''.''")
    case True
    then show ?thesis by simp
  next
    case False
    then show ?thesis by (subst split_dot.simps, subst Cons.IH) simp
  qed
qed

lemma split_dot_not_Nil: "split_dot s \<noteq> []"
  by (subst split_dot_unfold) simp

lemma split_dot_single:
  "split_dot s = [y] \<longleftrightarrow> y = s \<and> (\<forall>c \<in> set s. c \<noteq> CHR ''.'')"
proof (cases "dropWhile (\<lambda>c. c \<noteq> CHR ''.'') s")
  case Nil
  have "split_dot s = [takeWhile (\<lambda>c. c \<noteq> CHR ''.'') s]"
    by (subst split_dot_unfold) (simp only: Nil list.case)
  moreover from Nil have all: "\<forall>c \<in> set s. c \<noteq> CHR ''.''"
    by (simp add: dropWhile_eq_Nil_conv)
  moreover from all have "takeWhile (\<lambda>c. c \<noteq> CHR ''.'') s = s"
    by (simp add: takeWhile_eq_all_conv)
  ultimately show ?thesis by auto
next
  case (Cons c r)
  have "split_dot s = takeWhile (\<lambda>c. c \<noteq> CHR ''.'') s # split_dot r"
    by (subst split_dot_unfold) (simp only: Cons list.case)
  with split_dot_not_Nil [of r] have "split_dot s \<noteq> [y]" by simp
  moreover have "\<not> (\<forall>c \<in> set s. c \<noteq> CHR ''.'')"
  proof
    assume "\<forall>c \<in> set s. c \<noteq> CHR ''.''"
    then have "dropWhile (\<lambda>c. c \<noteq> CHR ''.'') s = []" by (simp add: dropWhile_eq_Nil_conv)
    with Cons show False by simp
  qed
  ultimately show ?thesis by blast
qed

lemma match_dmY_iff:
  "match_dmY s = Some (d, m, y) \<longleftrightarrow>
     split_dot s = [d, m, y] \<and> day_re d \<and> month_re m \<and> year_re y"
proof (cases "dropWhile (\<lambda>c. c \<noteq> CHR ''.'') s")
  case Nil
  have "split_dot s = [takeWhile (\<lambda>c. c \<noteq> CHR ''.'') s]"
    by (subst split_dot_unfold) (simp only: Nil list.case)
  moreover have "match_dmY s = None"
    unfolding match_dmY_def Let_def by (simp only: Nil list.case)
  ultimately show ?thesis by simp
next
  case r1: (Cons c r1)
  have s: "split_dot s = takeWhile (\<lambda>c. c \<noteq> CHR ''.'') s # split_dot r1"
    by (subst split_dot_unfold) (simp only: r1 list.case)
  show ?thesis
  proof (cases "dropWhile (\<lambda>c. c \<noteq> CHR ''.'') r1")
    case Nil
    have "split_dot r1 = [takeWhile (\<lambda>c. c \<noteq> CHR ''.'') r1]"
      by (subst split_dot_unfold) (simp only: Nil list.case)
    with s have "split_dot s \<noteq> [d, m, y]" by simp
    moreover have "match_dmY s = None"
      unfolding match_dmY_def Let_def by (simp only: r1 Nil list.case)
    ultimately show ?thesis by simp
  next
    case y0: (Cons c' y0)
    have r: "split_dot r1 = takeWhile (\<lambda>c. c \<noteq> CHR ''.'') r1 # split_dot y0"
      by (subst split_dot_unfold) (simp only: y0 list.case)
    have m_eq: "match_dmY s =
        (if day_re (takeWhile (\<lambda>c. c \<noteq> CHR ''.'') s) \<and>
            month_re (takeWhile (\<lambda>c. c \<noteq> CHR ''.'') r1) \<and> year_re y0
         then Some (takeWhile (\<lambda>c. c \<noteq> CHR ''.'') s, takeWhile (\<lambda>c. c \<noteq> CHR ''.'') r1, y0)
         else None)"
      unfolding match_dmY_def Let_def by (simp only: r1 y0 list.case)
    have no_dot: "\<forall>c \<in> set y0. c \<noteq> CHR ''.''" if "year_re y0"
      using that all_digits_not_dot [of y0] by (auto simp: year_re_iff)
    show ?thesis
    proof
      assume "match_dmY s = Some (d, m, y)"
      then have eq: "d = takeWhile (\<lambda>c. c \<noteq> CHR ''.'') s" "m = takeWhile (\<lambda>c. c \<noteq> CHR ''.'') r1"
        "y = y0" and re: "day_re d" "month_re m" "year_re y0"
        unfolding m_eq by (auto split: if_splits)
      from no_dot [OF re(3)] have "split_dot y0 = [y0]" by (simp add: split_dot_single)
      with s r eq re show "split_dot s = [d, m, y] \<and> day_re d \<and> month_re m \<and> year_re y"
        by simp
    next
      assume h: "split_dot s = [d, m, y] \<and> day_re d \<and> month_re m \<and> year_re y"
      with s r have eq: "d = takeWhile (\<lambda>c. c \<noteq> CHR ''.'') s" "m = takeWhile (\<lambda>c. c \<noteq> CHR ''.'') r1"
        and y: "split_dot y0 = [y]"
        by simp_all
      from y have "y = y0" by (simp add: split_dot_single)
      with h eq show "match_dmY s = Some (d, m, y)"
        unfolding m_eq by simp
    qed
  qed
qed

lemma date_new_iff: "(\<exists>bd. date_new y m d = Inr bd) \<longleftrightarrow> date_exists y m d"
  by (auto simp: date_new_def date_exists_def MINYEAR_def MAXYEAR_def)

lemma accepted_birthday_iff:
  "accepted_birthday s \<longleftrightarrow>
     (\<exists>d m y. split_dot s = [d, m, y] \<and> day_text d \<and> month_text m \<and> length y = 4 \<and>
        all_digits y \<and> date_exists (decimal_value y) (decimal_value m) (day_number d))"
  unfolding accepted_birthday_def by (auto split: list.splits)

lemma strptime_accepts_iff: "(\<exists>bd. strptime_dmY s = Inr bd) \<longleftrightarrow> accepted_birthday s"
proof
  assume "\<exists>bd. strptime_dmY s = Inr bd"
  then obtain bd where bd: "strptime_dmY s = Inr bd" ..
  then obtain d m y where mt: "match_dmY s = Some (d, m, y)"
    and dn: "date_new (py_int y) (py_int m) (py_int d) = Inr bd"
    by (auto simp: strptime_dmY_def split: option.splits)
  from mt have sp: "split_dot s = [d, m, y]" and re: "day_re d" "month_re m" "year_re y"
    by (simp_all add: match_dmY_iff)
  from re have tx: "day_text d" "month_text m" "length y = 4" "all_digits y"
    by (simp_all add: day_re_iff month_re_iff year_re_iff)
  from tx have "py_int d = day_number d" "py_int m = decimal_value m" "py_int y = decimal_value y"
    by (simp_all add: py_int_day py_int_digits month_text_def)
  with dn date_new_iff [of "py_int y" "py_int m" "py_int d"]
  have "date_exists (decimal_value y) (decimal_value m) (day_number d)" by auto
  with sp tx show "accepted_birthday s" unfolding accepted_birthday_iff by blast
next
  assume "accepted_birthday s"
  then obtain d m y where sp: "split_dot s = [d, m, y]"
    and tx: "day_text d" "month_text m" "length y = 4" "all_digits y"
    and ex: "date_exists (decimal_value y) (decimal_value m) (day_number d)"
    unfolding accepted_birthday_iff by blast
  from ex have mr: "1 \<le> decimal_value m" "decimal_value m \<le> 12"
    and dr: "1 \<le> day_number d" "day_number d \<le> days_in_month (decimal_value y) (decimal_value m)"
    by (simp_all add: date_exists_def)
  from days_in_month_bounds [OF mr, of "decimal_value y"] dr have "day_number d \<le> 31" by simp
  with tx dr mr have re: "day_re d" "month_re m" "year_re y"
    by (simp_all add: day_re_iff month_re_iff year_re_iff)
  with sp have mt: "match_dmY s = Some (d, m, y)" by (simp add: match_dmY_iff)
  from tx have "py_int d = day_number d" "py_int m = decimal_value m" "py_int y = decimal_value y"
    by (simp_all add: py_int_day py_int_digits month_text_def)
  with ex date_new_iff [of "py_int y" "py_int m" "py_int d"]
  have "\<exists>bd. date_new (py_int y) (py_int m) (py_int d) = Inr bd" by simp
  with mt show "\<exists>bd. strptime_dmY s = Inr bd" by (simp add: strptime_dmY_def)
qed

lemma strict_is_accepted: "is_DD_MM_YYYY s \<Longrightarrow> accepted_birthday s"
proof -
  assume "is_DD_MM_YYYY s"
  then obtain d m y where sp: "split_dot s = [d, m, y]"
    and tx: "length d = 2" "all_digits d" "length m = 2" "all_digits m" "length y = 4" "all_digits y"
    and ex: "date_exists (decimal_value y) (decimal_value m) (decimal_value d)"
    unfolding is_DD_MM_YYYY_def by (auto split: list.splits)
  from tx have "day_text d" "month_text m" "day_number d = decimal_value d"
    by (simp_all add: day_text_def month_text_def day_number_digits)
  with sp tx ex show ?thesis unfolding accepted_birthday_iff by auto
qed

lemma Birthday_eq:
  "Birthday raw = (if accepted_birthday raw then Inr raw else Inl InvalidDate)"
proof (cases "strptime_dmY raw")
  case (Inl e)
  then have "\<not> (\<exists>bd. strptime_dmY raw = Inr bd)" by simp
  then have "\<not> accepted_birthday raw" by (simp add: strptime_accepts_iff)
  with Inl show ?thesis by (simp add: Birthday_def)
next
  case (Inr bd)
  then have "\<exists>bd. strptime_dmY raw = Inr bd" by blast
  then have "accepted_birthday raw" by (simp add: strptime_accepts_iff)
  with Inr show ?thesis by (simp add: Birthday_def)
qed

text \<open>
  Claim C5, as stated, fails: \<open>1.2.2024\<close> is not in the format \<open>DD.MM.YYYY\<close>, and
  \<open>Birthday\<close> accepts it.
\<close>

theorem Birthday_strict_counterexample:
  "Birthday ''1.2.2024'' = Inr ''1.2.2024'' \<and> \<not> is_DD_MM_YYYY ''1.2.2024''"
  by code_simp

text \<open>
  Claim C5, amended. \<open>Birthday\<close> succeeds exactly on the strings \<open>day.month.year\<close>
  that name an existing date, with the day and the month written with one or two digits
  (the day also with a space and one digit) and the year with four; every valid date in
  the exact format \<open>DD.MM.YYYY\<close> is among them. On success the stored value is the
  raw string, unchanged; the only error is \<open>InvalidDate\<close>.
\<close>

theorem Birthday_accepts:
  "((\<exists>v. Birthday raw = Inr v) \<longleftrightarrow> accepted_birthday raw) \<and>
   (is_DD_MM_YYYY raw \<longrightarrow> Birthday raw = Inr raw) \<and>
   (\<forall>v. Birthday raw = Inr v \<longrightarrow> v = raw) \<and>
   (\<forall>e. Birthday raw = Inl e \<longrightarrow> e = InvalidDate)"
  using strict_is_accepted [of raw] by (auto simp: Birthday_eq)

theorem Birthday_accepts_witness:
  "is_DD_MM_YYYY ''29.02.2024'' \<and> Birthday ''29.02.2024'' = Inr ''29.02.2024'' \<and>
   accepted_birthday ''1.2.2024'' \<and> Birthday ''1.2.2024'' = Inr ''1.2.2024'' \<and>
   accepted_birthday '' 1.02.2024'' \<and> Birthday '' 1.02.2024'' = Inr '' 1.02.2024'' \<and>
   \<not> accepted_birthday ''31.02.2024'' \<and> Birthday ''31.02.2024'' = Inl InvalidDate \<and>
   \<not> accepted_birthday ''2024-02-01'' \<and> Birthday ''2024-02-01'' = Inl InvalidDate"
proof -
  have a: "is_DD_MM_YYYY ''29.02.2024''" "accepted_birthday ''1.2.2024''"
    "accepted_birthday '' 1.02.2024''" "\<not> accepted_birthday ''31.02.2024''"
    "\<not> accepted_birthday ''2024-02-01''"
    by code_simp+
  from a Birthday_accepts [of "''29.02.2024''"] Birthday_accepts [of "''1.2.2024''"]
    Birthday_accepts [of "'' 1.02.2024''"] Birthday_accepts [of "''31.02.2024''"]
    Birthday_accepts [of "''2024-02-01''"]
  show ?thesis by (auto simp: Birthday_eq)
qed

end
